theory Spec2Isabelle
  imports Complex_Main "HOL-Library.Word" "HOL-Library.Multiset" "HOL-Library.Product_Lexorder"
begin

unbundle bit_operations_syntax

section \<open>Rectangle packer (internal/packer)\<close>

text \<open>
  Record fields carry a short prefix (\<open>rX\<close> is \<open>mrRect.X\<close>, \<open>mFree\<close> is
  \<open>maxRects.free\<close>, \<open>iWidth\<close> is \<open>ImageInfo.Width\<close>, \<open>pX\<close> is \<open>Placement.X\<close>).
\<close>

subsection \<open>Machine integers\<close>

text \<open>
  Go's \<open>int\<close> has 64 bits on the platforms the tool is built for, and its arithmetic
  wraps around silently. A value of that type is a HOL \<open>int\<close> between \<open>-2^63\<close> and
  \<open>2^63 - 1\<close>, and \<open>w64\<close> brings the exact result of an operation back into that range.
  It is applied wherever the program adds, subtracts or multiplies quantities that come
  from its inputs: the padding of the image sides by the gap, the offsets of the
  placements, the areas compared by the sort, the area of a candidate atlas and every
  score of \<open>Insert\<close>.

  Two families of operations are written on exact integers, because their results stay
  in the range on every run that returns. The sums and differences of \<open>splitFree\<close> and
  \<open>containedIn\<close> are taken on rectangles of the bin: the free ones have non-negative
  sides and lie within the atlas, whose sides are positive \<open>int\<close> values, and a used one
  sits in the corner of a free one that holds it, so that every such sum lies between
  \<open>-2^63\<close> and the atlas side. The doubling loops of \<open>nextPowerOfTwo\<close>,
  \<open>powerOfTwoCeil\<close> and \<open>findOptimalSize\<close> double a positive value while it is below
  a bound: as long as the bound is at most \<open>2^62\<close> no doubling leaves the range, and
  past \<open>2^62\<close> the program's value wraps to \<open>-2^63\<close> and then to \<open>0\<close>.
\<close>

definition w64 :: "int \<Rightarrow> int" where
  "w64 x = (x + 9223372036854775808) mod 18446744073709551616 - 9223372036854775808"

definition inInt64 :: "int \<Rightarrow> bool" where
  "inInt64 x \<longleftrightarrow> - 9223372036854775808 \<le> x \<and> x < 9223372036854775808"

text \<open>\<open>side + 2*cfg.Gap\<close>, as the program computes it.\<close>

definition padded :: "int \<Rightarrow> int \<Rightarrow> int" where
  "padded side gap = w64 (side + w64 (2 * gap))"

text \<open>\<open>if d < 0 { d = -d }\<close>.\<close>

definition abs64 :: "int \<Rightarrow> int" where
  "abs64 d = (if d < 0 then w64 (- d) else d)"

subsection \<open>Types\<close>

record mrRect =
  rX :: int
  rY :: int
  rW :: int
  rH :: int
  rRotated :: bool

record maxRects =
  mUsed :: "mrRect list"
  mFree :: "mrRect list"
  mW :: int
  mH :: int
  mAllowRotate :: bool

text \<open>\<open>type Rule int\<close> with its five constants.\<close>

type_synonym Rule = int

definition BestShortSideFit :: Rule where "BestShortSideFit = 0"
definition BestLongSideFit :: Rule where "BestLongSideFit = 1"
definition BestAreaFit :: Rule where "BestAreaFit = 2"
definition BottomLeft :: Rule where "BottomLeft = 3"
definition ContactPoint :: Rule where "ContactPoint = 4"

definition newMaxRects :: "int \<Rightarrow> int \<Rightarrow> bool \<Rightarrow> maxRects" where
  "newMaxRects w h allowRotate =
     \<lparr>mUsed = [], mFree = [\<lparr>rX = 0, rY = 0, rW = w, rH = h, rRotated = False\<rparr>],
      mW = w, mH = h, mAllowRotate = allowRotate\<rparr>"

subsection \<open>Scores\<close>

definition commonInterval :: "int \<Rightarrow> int \<Rightarrow> int \<Rightarrow> int \<Rightarrow> int" where
  "commonInterval a0 a1 b0 b1 =
     (if a1 \<le> b0 \<or> b1 \<le> a0 then 0
      else w64 ((if b1 < a1 then b1 else a1) - (if b0 > a0 then b0 else a0)))"

fun contactUsed :: "mrRect list \<Rightarrow> int \<Rightarrow> int \<Rightarrow> int \<Rightarrow> int \<Rightarrow> int \<Rightarrow> int" where
  "contactUsed [] x y w h score = score"
| "contactUsed (u # us) x y w h score =
     (let s1 = (if rX u = w64 (x + w) \<or> w64 (rX u + rW u) = x
                then w64 (score + commonInterval (rY u) (w64 (rY u + rH u)) y (w64 (y + h)))
                else score);
          s2 = (if rY u = w64 (y + h) \<or> w64 (rY u + rH u) = y
                then w64 (s1 + commonInterval (rX u) (w64 (rX u + rW u)) x (w64 (x + w)))
                else s1)
      in contactUsed us x y w h s2)"

definition contactScore :: "maxRects \<Rightarrow> int \<Rightarrow> int \<Rightarrow> int \<Rightarrow> int \<Rightarrow> int" where
  "contactScore m x y w h =
     (let s1 = (if x = 0 \<or> w64 (x + w) = mW m then h else 0);
          s2 = (if y = 0 \<or> w64 (y + h) = mH m then w64 (s1 + w) else s1)
      in contactUsed (mUsed m) x y w h s2)"

definition score :: "maxRects \<Rightarrow> Rule \<Rightarrow> mrRect \<Rightarrow> int \<Rightarrow> int \<Rightarrow> int \<times> int" where
  "score m rule fr rw rh =
     (let leftoverH = abs64 (w64 (rW fr - rw));
          leftoverV = abs64 (w64 (rH fr - rh));
          shortSide = (if leftoverV < leftoverH then leftoverV else leftoverH);
          longSide = (if leftoverH > leftoverV then leftoverH else leftoverV)
      in if rule = BestShortSideFit then (shortSide, longSide)
         else if rule = BestLongSideFit then (longSide, shortSide)
         else if rule = BestAreaFit then (w64 (w64 (rW fr * rH fr) - w64 (rw * rh)), shortSide)
         else if rule = BottomLeft then (w64 (rY fr + rh), rX fr)
         else if rule = ContactPoint then (w64 (- contactScore m (rX fr) (rY fr) rw rh), 0)
         else (1073741824, 1073741824))"

subsection \<open>Splitting and pruning the free list\<close>

text \<open>The separating-axis test at the head of \<open>splitFree\<close>: the used rectangle misses \<open>fr\<close>.\<close>

definition misses :: "mrRect \<Rightarrow> mrRect \<Rightarrow> bool" where
  "misses used fr \<longleftrightarrow>
     rX used \<ge> rX fr + rW fr \<or> rX used + rW used \<le> rX fr \<or>
     rY used \<ge> rY fr + rH fr \<or> rY used + rH used \<le> rY fr"

text \<open>The rectangles \<open>splitFree\<close> appends, in its order: top, bottom, left, right.\<close>

definition splitParts :: "mrRect \<Rightarrow> mrRect \<Rightarrow> mrRect list" where
  "splitParts fr used =
     (if rX used < rX fr + rW fr \<and> rX used + rW used > rX fr then
        (if rY used > rY fr \<and> rY used < rY fr + rH fr
         then [\<lparr>rX = rX fr, rY = rY fr, rW = rW fr, rH = rY used - rY fr, rRotated = False\<rparr>]
         else []) @
        (if rY used + rH used < rY fr + rH fr
         then [\<lparr>rX = rX fr, rY = rY used + rH used, rW = rW fr,
                rH = rY fr + rH fr - (rY used + rH used), rRotated = False\<rparr>]
         else [])
      else []) @
     (if rY used < rY fr + rH fr \<and> rY used + rH used > rY fr then
        (if rX used > rX fr \<and> rX used < rX fr + rW fr
         then [\<lparr>rX = rX fr, rY = rY fr, rW = rX used - rX fr, rH = rH fr, rRotated = False\<rparr>]
         else []) @
        (if rX used + rW used < rX fr + rW fr
         then [\<lparr>rX = rX used + rW used, rY = rY fr,
                rW = rX fr + rW fr - (rX used + rW used), rH = rH fr, rRotated = False\<rparr>]
         else [])
      else [])"

text \<open>\<open>splitFree\<close> returns its verdict and the free list after its appends.\<close>

definition splitFree :: "mrRect list \<Rightarrow> nat \<Rightarrow> mrRect \<Rightarrow> bool \<times> mrRect list" where
  "splitFree fs freeIdx used =
     (let fr = fs ! freeIdx
      in if misses used fr then (False, fs) else (True, fs @ splitParts fr used))"

definition removeAt :: "'a list \<Rightarrow> nat \<Rightarrow> 'a list" where
  "removeAt s i = (if i \<ge> length s then s else take i s @ drop (Suc i) s)"

definition containedIn :: "mrRect \<Rightarrow> mrRect \<Rightarrow> bool" where
  "containedIn a b \<longleftrightarrow>
     rX a \<ge> rX b \<and> rY a \<ge> rY b \<and> rX a + rW a \<le> rX b + rW b \<and> rY a + rH a \<le> rY b + rH b"

lemma splitParts_miss: "p \<in> set (splitParts fr used) \<Longrightarrow> misses used p"
  by (auto simp: splitParts_def misses_def split: if_splits)

lemma length_splitParts: "length (splitParts fr used) \<le> 4"
  by (simp add: splitParts_def)

text \<open>
  The loop of \<open>place\<close>: \<open>i\<close> stays where it is after a split (the entry is replaced by
  the next one), and the appended parts are visited at the end of the list.
\<close>

function place_loop :: "mrRect \<Rightarrow> nat \<Rightarrow> mrRect list \<Rightarrow> mrRect list" where
  "place_loop used i fs =
     (if i < length fs then
        (if fst (splitFree fs i used)
         then place_loop used i (removeAt (snd (splitFree fs i used)) i)
         else place_loop used (Suc i) fs)
      else fs)"
  by pat_completeness auto

lemma removeAt_append_lt:
  "i < length fs \<Longrightarrow> removeAt (fs @ ps) i = take i fs @ drop (Suc i) fs @ ps"
  by (simp add: removeAt_def)

lemma filter_splitParts_hit: "filter (\<lambda>f. \<not> misses used f) (splitParts fr used) = []"
  by (simp add: filter_empty_conv splitParts_miss)

lemma place_loop_split_measure:
  assumes "i < length fs" and "\<not> misses used (fs ! i)"
  shows "5 * length (filter (\<lambda>f. \<not> misses used f) (drop i (removeAt (fs @ splitParts (fs ! i) used) i)))
           + (length (removeAt (fs @ splitParts (fs ! i) used) i) - i)
         < 5 * length (filter (\<lambda>f. \<not> misses used f) (drop i fs)) + (length fs - i)"
proof -
  let ?ps = "splitParts (fs ! i) used"
  have r: "removeAt (fs @ ?ps) i = take i fs @ drop (Suc i) fs @ ?ps"
    using assms(1) by (rule removeAt_append_lt)
  have d: "drop i (take i fs @ drop (Suc i) fs @ ?ps) = drop (Suc i) fs @ ?ps"
    using assms(1) by simp
  have c: "drop i fs = fs ! i # drop (Suc i) fs"
    using assms(1) by (simp add: Cons_nth_drop_Suc)
  have l: "length ?ps \<le> 4" by (rule length_splitParts)
  show ?thesis
    unfolding r d c using assms l by (simp add: filter_splitParts_hit)
qed

termination place_loop
proof (relation "measure (\<lambda>(used, i, fs).
         5 * length (filter (\<lambda>f. \<not> misses used f) (drop i fs)) + (length fs - i))")
  show "wf (measure (\<lambda>(used, i, fs).
         5 * length (filter (\<lambda>f. \<not> misses used f) (drop i fs)) + (length fs - i)))"
    by simp
next
  fix used :: mrRect and i :: nat and fs :: "mrRect list"
  assume a: "i < length fs" "fst (splitFree fs i used)"
  from a(2) have h: "\<not> misses used (fs ! i)"
    by (auto simp: splitFree_def Let_def split: if_splits)
  then have s: "snd (splitFree fs i used) = fs @ splitParts (fs ! i) used"
    by (simp add: splitFree_def Let_def)
  show "((used, i, removeAt (snd (splitFree fs i used)) i), (used, i, fs))
        \<in> measure (\<lambda>(used, i, fs).
         5 * length (filter (\<lambda>f. \<not> misses used f) (drop i fs)) + (length fs - i))"
    unfolding s using place_loop_split_measure [OF a(1) h] by simp
next
  fix used :: mrRect and i :: nat and fs :: "mrRect list"
  assume a: "i < length fs" "\<not> fst (splitFree fs i used)"
  from a(2) have h: "misses used (fs ! i)"
    by (auto simp: splitFree_def Let_def split: if_splits)
  have c: "drop i fs = fs ! i # drop (Suc i) fs"
    using a(1) by (simp add: Cons_nth_drop_Suc)
  show "((used, Suc i, fs), (used, i, fs))
        \<in> measure (\<lambda>(used, i, fs).
         5 * length (filter (\<lambda>f. \<not> misses used f) (drop i fs)) + (length fs - i))"
    using a(1) h by (simp add: c)
qed

declare place_loop.simps [simp del]

text \<open>
  The loops of \<open>pruneFree\<close>. The inner loop returns the list and whether it left by
  \<open>break\<close> (after removing entry \<open>i\<close>); \<open>a\<close> is the copy of entry \<open>i\<close> taken when
  the outer iteration began. After a \<open>break\<close> the outer loop's \<open>i--\<close> and \<open>i++\<close>
  cancel; after removing entry \<open>j\<close> the \<open>j--\<close> and \<open>j++\<close> cancel.
\<close>

function prune_inner :: "mrRect \<Rightarrow> nat \<Rightarrow> nat \<Rightarrow> mrRect list \<Rightarrow> mrRect list \<times> bool" where
  "prune_inner a i j fs =
     (if j < length fs then
        (if containedIn a (fs ! j) then (removeAt fs i, True)
         else if containedIn (fs ! j) a then prune_inner a i j (removeAt fs j)
         else prune_inner a i (Suc j) fs)
      else (fs, False))"
  by pat_completeness auto
termination
  by (relation "measure (\<lambda>(a, i, j, fs). length fs - j)") (auto simp: removeAt_def)

declare prune_inner.simps [simp del]

lemma prune_inner_length:
  "i < length fs \<Longrightarrow> i < j \<Longrightarrow>
   length (fst (prune_inner a i j fs)) \<le> length fs \<and>
   i < length (fst (prune_inner a i j fs)) + (if snd (prune_inner a i j fs) then 1 else 0) \<and>
   (snd (prune_inner a i j fs) \<longrightarrow> length (fst (prune_inner a i j fs)) < length fs)"
proof (induction a i j fs rule: prune_inner.induct)
  case (1 a i j fs)
  note unf = prune_inner.simps [of a i j fs]
  show ?case
  proof (cases "j < length fs")
    case False
    then show ?thesis using "1.prems" by (simp add: unf)
  next
    case True
    note j = True
    show ?thesis
    proof (cases "containedIn a (fs ! j)")
      case True
      then show ?thesis using j "1.prems" by (auto simp: unf removeAt_def)
    next
      case False
      note nc = False
      show ?thesis
      proof (cases "containedIn (fs ! j) a")
        case True
        have "i < length (removeAt fs j)" using j "1.prems" by (simp add: removeAt_def)
        from "1.IH"(1) [OF j nc True this "1.prems"(2)]
        show ?thesis using j nc True by (auto simp: unf removeAt_def)
      next
        case False
        have "i < Suc j" using "1.prems" by simp
        from "1.IH"(2) [OF j nc False "1.prems"(1) this]
        show ?thesis using j nc False by (simp add: unf)
      qed
    qed
  qed
qed

function prune_outer :: "nat \<Rightarrow> mrRect list \<Rightarrow> mrRect list" where
  "prune_outer i fs =
     (if i < length fs then
        (if snd (prune_inner (fs ! i) i (Suc i) fs)
         then prune_outer i (fst (prune_inner (fs ! i) i (Suc i) fs))
         else prune_outer (Suc i) (fst (prune_inner (fs ! i) i (Suc i) fs)))
      else fs)"
  by pat_completeness auto
termination
proof (relation "measure (\<lambda>(i, fs). 2 * length fs - i)")
  show "wf (measure (\<lambda>(i, fs). 2 * length fs - i))" by simp
next
  fix i :: nat and fs :: "mrRect list"
  assume a: "i < length fs" "snd (prune_inner (fs ! i) i (Suc i) fs)"
  from prune_inner_length [of i fs "Suc i" "fs ! i"] a
  show "((i, fst (prune_inner (fs ! i) i (Suc i) fs)), (i, fs)) \<in> measure (\<lambda>(i, fs). 2 * length fs - i)"
    by auto
next
  fix i :: nat and fs :: "mrRect list"
  assume a: "i < length fs" "\<not> snd (prune_inner (fs ! i) i (Suc i) fs)"
  from prune_inner_length [of i fs "Suc i" "fs ! i"] a
  show "((Suc i, fst (prune_inner (fs ! i) i (Suc i) fs)), (i, fs)) \<in> measure (\<lambda>(i, fs). 2 * length fs - i)"
    by auto
qed

declare prune_outer.simps [simp del]

definition pruneFree :: "mrRect list \<Rightarrow> mrRect list" where
  "pruneFree fs = prune_outer 0 fs"

definition place :: "maxRects \<Rightarrow> mrRect \<Rightarrow> maxRects" where
  "place m used =
     m\<lparr>mFree := pruneFree (place_loop used 0 (mFree m)), mUsed := mUsed m @ [used]\<rparr>"

subsection \<open>Insert\<close>

definition zeroRect :: mrRect where
  "zeroRect = \<lparr>rX = 0, rY = 0, rW = 0, rH = 0, rRotated = False\<rparr>"

text \<open>
  One orientation tried on one free rectangle: the state is \<open>(best, pri, sec, found)\<close>.
\<close>

definition try_fit ::
  "maxRects \<Rightarrow> Rule \<Rightarrow> mrRect \<Rightarrow> int \<Rightarrow> int \<Rightarrow> bool \<Rightarrow> mrRect \<times> int \<times> int \<times> bool
   \<Rightarrow> mrRect \<times> int \<times> int \<times> bool" where
  "try_fit m rule fr rw rh rot st =
     (case st of (best, pri, sec, found) \<Rightarrow>
        (case score m rule fr rw rh of (p, s) \<Rightarrow>
           if p < pri \<or> (p = pri \<and> s < sec)
           then (\<lparr>rX = rX fr, rY = rY fr, rW = rw, rH = rh, rRotated = rot\<rparr>, p, s, True)
           else st))"

text \<open>The body of the scan loop: both orientations on the free rectangle \<open>fr\<close>.\<close>

definition scan_step ::
  "maxRects \<Rightarrow> int \<Rightarrow> int \<Rightarrow> Rule \<Rightarrow> mrRect \<Rightarrow> mrRect \<times> int \<times> int \<times> bool
   \<Rightarrow> mrRect \<times> int \<times> int \<times> bool" where
  "scan_step m w h rule fr st =
     (let st1 = (if rW fr \<ge> w \<and> rH fr \<ge> h then try_fit m rule fr w h False st else st)
      in if mAllowRotate m \<and> rW fr \<ge> h \<and> rH fr \<ge> w
         then try_fit m rule fr h w True st1 else st1)"

fun insert_scan ::
  "maxRects \<Rightarrow> int \<Rightarrow> int \<Rightarrow> Rule \<Rightarrow> mrRect list \<Rightarrow> mrRect \<times> int \<times> int \<times> bool
   \<Rightarrow> mrRect \<times> int \<times> int \<times> bool" where
  "insert_scan m w h rule [] st = st"
| "insert_scan m w h rule (fr # frs) st = insert_scan m w h rule frs (scan_step m w h rule fr st)"

text \<open>\<open>Insert\<close> returns the rectangle, the success flag and the bin after the call.\<close>

definition Insert :: "maxRects \<Rightarrow> int \<Rightarrow> int \<Rightarrow> Rule \<Rightarrow> (mrRect \<times> bool) \<times> maxRects" where
  "Insert m w h rule =
     (case insert_scan m w h rule (mFree m) (zeroRect, 1073741824, 1073741824, False) of
        (best, pri, sec, found) \<Rightarrow>
          if \<not> found then ((zeroRect, False), m) else ((best, True), place m best))"

subsection \<open>Powers of two (util.go)\<close>

text \<open>
  In both loops the counter starts at 1 and is doubled, so it stays positive; the
  conjunct \<open>0 < p\<close> is always true there and only makes the recursion well-founded.
  For \<open>n\<close> up to \<open>2^62\<close> the counter stops at a power of two that is at most \<open>2^62\<close>.
  For a larger \<open>n\<close> the program's counter wraps and the call does not return; the
  functions below then give \<open>2^63\<close> (and 63), more than any \<open>MaxSize\<close> of type \<open>int\<close>.
\<close>

function npot_loop :: "int \<Rightarrow> int \<Rightarrow> int" where
  "npot_loop p n = (if p < n \<and> 0 < p then npot_loop (2 * p) n else p)"
  by pat_completeness auto
termination
  by (relation "measure (\<lambda>(p, n). nat (n - p))") auto

declare npot_loop.simps [simp del]

definition nextPowerOfTwo :: "int \<Rightarrow> int" where
  "nextPowerOfTwo n =
     (if n \<le> 0 then 1 else if n AND (n - 1) = 0 then n else npot_loop 1 n)"

function potc_loop :: "int \<Rightarrow> int \<Rightarrow> int \<Rightarrow> int" where
  "potc_loop v p n = (if v < n \<and> 0 < v then potc_loop (2 * v) (p + 1) n else p)"
  by pat_completeness auto
termination
  by (relation "measure (\<lambda>(v, p, n). nat (n - v))") auto

declare potc_loop.simps [simp del]

definition powerOfTwoCeil :: "int \<Rightarrow> int" where
  "powerOfTwoCeil n = (if n \<le> 0 then 0 else potc_loop 1 0 n)"

definition absPowerDiff :: "int \<Rightarrow> int \<Rightarrow> int" where
  "absPowerDiff a b =
     (let d = powerOfTwoCeil a - powerOfTwoCeil b in if d < 0 then - d else d)"

subsection \<open>Configuration, inputs and results\<close>

text \<open>
  \<open>AspectPenalty\<close> is a \<open>float64\<close>. The model is parametric in the type \<open>'f\<close> of
  floating-point values and in the operations that \<open>findOptimalSize\<close> applies to them,
  so that nothing proved for every \<open>'f float64_ops\<close> depends on how they round.
\<close>

record 'f float64_ops =
  fOfInt :: "int \<Rightarrow> 'f"
  fAdd :: "'f \<Rightarrow> 'f \<Rightarrow> 'f"
  fSub :: "'f \<Rightarrow> 'f \<Rightarrow> 'f"
  fMul :: "'f \<Rightarrow> 'f \<Rightarrow> 'f"
  fDiv :: "'f \<Rightarrow> 'f \<Rightarrow> 'f"
  fLess :: "'f \<Rightarrow> 'f \<Rightarrow> bool"
  fEq :: "'f \<Rightarrow> 'f \<Rightarrow> bool"
  fMaxFloat64 :: 'f

record 'f Config =
  MinSize :: int
  MaxSize :: int
  Gap :: int
  AspectPenalty :: 'f
  Rule :: Rule
  PreferHeight :: bool
  ForceSquare :: bool
  AllowRotate :: bool

text \<open>The pixel source \<open>ImageInfo.Image\<close> and the atlas pixels play no part below.\<close>

record ImageInfo =
  iName :: string
  iWidth :: int
  iHeight :: int

record Placement =
  pName :: string
  pX :: int
  pY :: int
  pWidth :: int
  pHeight :: int
  pRotated :: bool

record Result =
  resWidth :: int
  resHeight :: int
  resPlacements :: "Placement list"

datatype pack_error =
  InvalidSizes int int
  | InvalidGap int
  | ExceedsMaxSize int int int
  | FailedToPlace string int int

definition validateConfig :: "'f Config \<Rightarrow> pack_error option" where
  "validateConfig cfg =
     (if MinSize cfg \<le> 0 \<or> MaxSize cfg \<le> 0 \<or> MinSize cfg > MaxSize cfg
      then Some (InvalidSizes (MinSize cfg) (MaxSize cfg))
      else if Gap cfg < 0 then Some (InvalidGap (Gap cfg))
      else None)"

definition normRule :: "Rule \<Rightarrow> Rule" where
  "normRule rule = (if rule < BestShortSideFit \<or> rule > ContactPoint then BestShortSideFit else rule)"

subsection \<open>Sorting the inputs (sort.go)\<close>

text \<open>The comparison function handed to \<open>sort.Slice\<close>, on the two entries it reads.\<close>

definition lessForPacking :: "'f Config \<Rightarrow> ImageInfo \<Rightarrow> ImageInfo \<Rightarrow> bool" where
  "lessForPacking cfg a b =
     (let wi = padded (iWidth a) (Gap cfg);
          hi = padded (iHeight a) (Gap cfg);
          wj = padded (iWidth b) (Gap cfg);
          hj = padded (iHeight b) (Gap cfg);
          mi = (if hi > wi then hi else wi);
          mj = (if hj > wj then hj else wj);
          ai = w64 (wi * hi);
          aj = w64 (wj * hj)
      in if mi \<noteq> mj then mi > mj
         else if ai \<noteq> aj then ai > aj
         else if hi \<noteq> hj then hi > hj
         else wi > wj)"

text \<open>
  \<open>sort.Slice\<close> belongs to Go's standard library; it is the parameter \<open>srt\<close>, a
  function from the comparison and the slice to the sorted slice.
\<close>

definition sortImagesForPacking ::
  "((ImageInfo \<Rightarrow> ImageInfo \<Rightarrow> bool) \<Rightarrow> ImageInfo list \<Rightarrow> ImageInfo list)
   \<Rightarrow> ImageInfo list \<Rightarrow> 'f Config \<Rightarrow> ImageInfo list" where
  "sortImagesForPacking srt images cfg = srt (lessForPacking cfg) images"

subsection \<open>The size search\<close>

fun canFit_loop :: "maxRects \<Rightarrow> ImageInfo list \<Rightarrow> 'f Config \<Rightarrow> Rule \<Rightarrow> bool" where
  "canFit_loop bin [] cfg rule = True"
| "canFit_loop bin (im # ims) cfg rule =
     (let pw = padded (iWidth im) (Gap cfg);
          ph = padded (iHeight im) (Gap cfg)
      in case Insert bin pw ph rule of
           ((r, ok), bin') \<Rightarrow> if \<not> ok then False else canFit_loop bin' ims cfg rule)"

definition canFitMaxRects :: "ImageInfo list \<Rightarrow> int \<Rightarrow> int \<Rightarrow> 'f Config \<Rightarrow> Rule \<Rightarrow> bool" where
  "canFitMaxRects images w h cfg rule =
     canFit_loop (newMaxRects w h (AllowRotate cfg)) images cfg rule"

fun maxPadded :: "ImageInfo list \<Rightarrow> 'f Config \<Rightarrow> int \<times> int \<Rightarrow> int \<times> int" where
  "maxPadded [] cfg mm = mm"
| "maxPadded (im # ims) cfg (minW, minH) =
     (let w = padded (iWidth im) (Gap cfg);
          h = padded (iHeight im) (Gap cfg)
      in maxPadded ims cfg (if w > minW then w else minW, if h > minH then h else minH))"

definition startSize :: "ImageInfo list \<Rightarrow> 'f Config \<Rightarrow> int" where
  "startSize images cfg =
     (case maxPadded images cfg (0, 0) of (minW, minH) \<Rightarrow>
        (let size0 = MinSize cfg;
             size1 = (if minW > size0 then nextPowerOfTwo minW else size0)
         in if minH > size1 then nextPowerOfTwo minH else size1))"

text \<open>The closure \<open>try\<close>, on the state \<open>(bestW, bestH, bestScore)\<close>.\<close>

definition try_size ::
  "'f float64_ops \<Rightarrow> ImageInfo list \<Rightarrow> 'f Config \<Rightarrow> Rule \<Rightarrow> int \<times> int \<Rightarrow> int \<times> int \<times> 'f
   \<Rightarrow> int \<times> int \<times> 'f" where
  "try_size ops images cfg rule wh st =
     (case wh of (w, h) \<Rightarrow> case st of (bestW, bestH, bestScore) \<Rightarrow>
        if w > MaxSize cfg \<or> h > MaxSize cfg then st
        else if (if ForceSquare cfg then w \<noteq> h else absPowerDiff w h > 1) then st
        else if \<not> canFitMaxRects images w h cfg rule then st
        else
          (let aspect = fDiv ops (fOfInt ops (max w h)) (fOfInt ops (min w h));
               sc = fMul ops (fOfInt ops (w64 (w * h)))
                      (fAdd ops (fOfInt ops 1)
                         (fMul ops (AspectPenalty cfg) (fSub ops aspect (fOfInt ops 1))))
           in if fLess ops sc bestScore \<or>
                 (fEq ops sc bestScore \<and>
                    ((\<not> PreferHeight cfg \<and> w \<ge> h) \<or> (PreferHeight cfg \<and> h \<ge> w)))
              then (w, h, sc) else st))"

text \<open>
  The values of \<open>for s := size; s <= MaxSize; s *= 2\<close>. From \<open>s \<le> 0\<close> the loop
  never leaves (doubling does not reach \<open>MaxSize\<close>): that is \<open>None\<close>. No doubling
  wraps when \<open>MaxSize\<close> is below \<open>2^62\<close>.
\<close>

function size_steps :: "int \<Rightarrow> int \<Rightarrow> int list option" where
  "size_steps s maxSize =
     (if s \<le> maxSize then
        (if s \<le> 0 then None else map_option ((#) s) (size_steps (2 * s) maxSize))
      else Some [])"
  by pat_completeness auto
termination
  by (relation "measure (\<lambda>(s, maxSize). nat (maxSize + 1 - s))") auto

declare size_steps.simps [simp del]

definition findOptimalSize ::
  "'f float64_ops \<Rightarrow> ImageInfo list \<Rightarrow> 'f Config \<Rightarrow> (int \<times> int) option" where
  "findOptimalSize ops images cfg =
     (let size = startSize images cfg;
          rule = normRule (Rule cfg)
      in case size_steps size (MaxSize cfg) of
           None \<Rightarrow> None
         | Some ss \<Rightarrow>
             (let cands =
                    (if ForceSquare cfg then map (\<lambda>s. (s, s)) ss
                     else if PreferHeight cfg then concat (map (\<lambda>w. map (\<lambda>h. (w, h)) ss) ss)
                     else concat (map (\<lambda>h. map (\<lambda>w. (w, h)) ss) ss))
              in case fold (try_size ops images cfg rule) cands (size, size, fMaxFloat64 ops) of
                   (bestW, bestH, bestScore) \<Rightarrow> Some (bestW, bestH)))"

subsection \<open>Pack\<close>

fun pack_loop ::
  "'f Config \<Rightarrow> Rule \<Rightarrow> int \<Rightarrow> int \<Rightarrow> maxRects \<Rightarrow> ImageInfo list \<Rightarrow> Placement list
   \<Rightarrow> pack_error + Placement list" where
  "pack_loop cfg rule w h bin [] placements = Inr placements"
| "pack_loop cfg rule w h bin (im # ims) placements =
     (let pw = padded (iWidth im) (Gap cfg);
          ph = padded (iHeight im) (Gap cfg)
      in case Insert bin pw ph rule of
           ((rect, ok), bin') \<Rightarrow>
             if \<not> ok then Inl (FailedToPlace (iName im) w h)
             else pack_loop cfg rule w h bin' ims
                    (placements @
                     [\<lparr>pName = iName im, pX = w64 (rX rect + Gap cfg), pY = w64 (rY rect + Gap cfg),
                       pWidth = iWidth im, pHeight = iHeight im, pRotated = rRotated rect\<rparr>]))"

text \<open>
  \<open>Pack\<close> without the pixels. \<open>None\<close> stands for a call that does not return, which
  can only come from the size search.
\<close>

definition Pack ::
  "((ImageInfo \<Rightarrow> ImageInfo \<Rightarrow> bool) \<Rightarrow> ImageInfo list \<Rightarrow> ImageInfo list) \<Rightarrow> 'f float64_ops
   \<Rightarrow> ImageInfo list \<Rightarrow> 'f Config \<Rightarrow> (pack_error + Result) option" where
  "Pack srt ops images cfg =
     (case validateConfig cfg of
        Some err \<Rightarrow> Some (Inl err)
      | None \<Rightarrow>
          if length images = 0
          then Some (Inr \<lparr>resWidth = MinSize cfg, resHeight = MinSize cfg, resPlacements = []\<rparr>)
          else
            (let imgs = sortImagesForPacking srt images cfg
             in case findOptimalSize ops imgs cfg of
                  None \<Rightarrow> None
                | Some (w, h) \<Rightarrow>
                    if w > MaxSize cfg \<or> h > MaxSize cfg
                    then Some (Inl (ExceedsMaxSize w h (MaxSize cfg)))
                    else
                      (case pack_loop cfg (normRule (Rule cfg)) w h
                              (newMaxRects w h (AllowRotate cfg)) imgs [] of
                         Inl err \<Rightarrow> Some (Inl err)
                       | Inr ps \<Rightarrow>
                           Some (Inr \<lparr>resWidth = w, resHeight = h, resPlacements = ps\<rparr>))))"

subsection \<open>Instances of the two parameters\<close>

text \<open>
  Exact arithmetic on rationals. It agrees with \<open>float64\<close> wherever every value met is
  a binary fraction that \<open>float64\<close> represents exactly, as for penalties like 0.25 on
  power-of-two sides. \<open>math.MaxFloat64\<close> is \<open>2^1024 - 2^971\<close>, written out below.
\<close>

definition MaxFloat64 :: rat where
  "MaxFloat64 =
     179769313486231570814527423731704356798070567525844996598917476803157260780028538760589558632766878171540458953514382464234321326889464182768467546703537516986049910576551282076245490090389328944075868508455133942304583236903222948165808559332123348274797826204144723168738177180919299881250404026184124858368"

lemma MaxFloat64_value: "MaxFloat64 = 2 ^ 1024 - 2 ^ 971"
  by (simp add: MaxFloat64_def)

definition exact_ops :: "rat float64_ops" where
  "exact_ops =
     \<lparr>fOfInt = of_int, fAdd = (+), fSub = (-), fMul = (*), fDiv = (/),
      fLess = (<), fEq = (=), fMaxFloat64 = MaxFloat64\<rparr>"

text \<open>
  An insertion sort, the way \<open>sort.Slice\<close> sorts a short slice: each entry moves left
  past the entries it is less than.
\<close>

fun sink :: "('a \<Rightarrow> 'a \<Rightarrow> bool) \<Rightarrow> 'a \<Rightarrow> 'a list \<Rightarrow> 'a list" where
  "sink lt x [] = [x]"
| "sink lt x (y # ys) = (if lt x y then y # sink lt x ys else x # y # ys)"

text \<open>\<open>sink\<close> works on the reversed prefix: its head is the left neighbour.\<close>

definition insertionSort :: "('a \<Rightarrow> 'a \<Rightarrow> bool) \<Rightarrow> 'a list \<Rightarrow> 'a list" where
  "insertionSort lt xs = rev (foldl (\<lambda>acc x. sink lt x acc) [] xs)"

subsection \<open>sort.Slice on longer slices\<close>

text \<open>
  \<open>sort.Slice\<close> (Go 1.19 and later, \<open>sort/zsortfunc.go\<close>) is a pattern-defeating
  quicksort. A slice of at most 12 entries is sorted by \<open>insertionSort_func\<close>, which is
  \<open>insertionSort\<close> above. A longer one is partitioned around a pivot, and the parts are
  sorted in the same way.
\<close>

text \<open>\<open>data.Swap(i, j)\<close>.\<close>

definition swapAt :: "'a list \<Rightarrow> int \<Rightarrow> int \<Rightarrow> 'a list" where
  "swapAt xs i j = xs[nat i := xs ! nat j, nat j := xs ! nat i]"

text \<open>
  \<open>order2_func\<close>, \<open>median_func\<close> and \<open>choosePivot_func\<close>. Below 50 entries the pivot is
  the median of the entries at one, two and three quarters of the slice, and the hint is
  \<open>increasingHint\<close> (the flag returned with the pivot) when finding it took no swap; it
  is never \<open>decreasingHint\<close>, which takes twelve swaps.
\<close>

definition order2_func ::
  "('a \<Rightarrow> 'a \<Rightarrow> bool) \<Rightarrow> 'a list \<Rightarrow> int \<Rightarrow> int \<Rightarrow> nat \<Rightarrow> int \<times> int \<times> nat" where
  "order2_func lt xs a b swaps =
     (if lt (xs ! nat b) (xs ! nat a) then (b, a, swaps + 1) else (a, b, swaps))"

definition median_func ::
  "('a \<Rightarrow> 'a \<Rightarrow> bool) \<Rightarrow> 'a list \<Rightarrow> int \<Rightarrow> int \<Rightarrow> int \<Rightarrow> nat \<Rightarrow> int \<times> nat" where
  "median_func lt xs a b c swaps =
     (case order2_func lt xs a b swaps of (a1, b1, s1) \<Rightarrow>
      case order2_func lt xs b1 c s1 of (b2, c2, s2) \<Rightarrow>
      case order2_func lt xs a1 b2 s2 of (a3, b3, s3) \<Rightarrow> (b3, s3))"

definition choosePivot_func :: "('a \<Rightarrow> 'a \<Rightarrow> bool) \<Rightarrow> 'a list \<Rightarrow> int \<times> bool" where
  "choosePivot_func lt xs =
     (let l = int (length xs);
          i = l div 4 * 1;
          j = l div 4 * 2;
          k = l div 4 * 3
      in if l \<ge> 8 then (case median_func lt xs i j k 0 of (m, swaps) \<Rightarrow> (m, swaps = 0))
         else (j, True))"

text \<open>
  \<open>partialInsertionSort_func\<close> on fewer than 50 entries: it walks up to the first entry
  that is less than its left neighbour, answers \<open>true\<close> if there is none and \<open>false\<close>
  otherwise, and moves nothing.
\<close>

function pis_scan :: "('a \<Rightarrow> 'a \<Rightarrow> bool) \<Rightarrow> 'a list \<Rightarrow> int \<Rightarrow> int" where
  "pis_scan lt xs i =
     (if i < int (length xs) \<and> \<not> lt (xs ! nat i) (xs ! nat (i - 1)) then pis_scan lt xs (i + 1) else i)"
  by pat_completeness auto
termination
  by (relation "measure (\<lambda>(lt, xs, i). nat (int (length xs) - i))") auto

declare pis_scan.simps [simp del]

definition partialInsertionSort_func :: "('a \<Rightarrow> 'a \<Rightarrow> bool) \<Rightarrow> 'a list \<Rightarrow> bool" where
  "partialInsertionSort_func lt xs \<longleftrightarrow> pis_scan lt xs 1 = int (length xs)"

text \<open>
  The two inner loops of \<open>partition_func\<close> and \<open>partitionEqual_func\<close>:
  \<open>for i <= j && P(i) { i++ }\<close> and \<open>for i <= j && P(j) { j-- }\<close>.
\<close>

function scan_up :: "('a \<Rightarrow> bool) \<Rightarrow> 'a list \<Rightarrow> int \<Rightarrow> int \<Rightarrow> int" where
  "scan_up P xs i j = (if i \<le> j \<and> P (xs ! nat i) then scan_up P xs (i + 1) j else i)"
  by pat_completeness auto
termination
  by (relation "measure (\<lambda>(P, xs, i, j). nat (j + 1 - i))") auto

declare scan_up.simps [simp del]

function scan_down :: "('a \<Rightarrow> bool) \<Rightarrow> 'a list \<Rightarrow> int \<Rightarrow> int \<Rightarrow> int" where
  "scan_down P xs i j = (if i \<le> j \<and> P (xs ! nat j) then scan_down P xs i (j - 1) else j)"
  by pat_completeness auto
termination
  by (relation "measure (\<lambda>(P, xs, i, j). nat (j + 1 - i))") auto

declare scan_down.simps [simp del]

lemma scan_up_ge: "i \<le> scan_up P xs i j"
proof (induction P xs i j rule: scan_up.induct)
  case (1 P xs i j)
  show ?case
  proof (cases "i \<le> j \<and> P (xs ! nat i)")
    case True
    from "1.IH" [OF True] show ?thesis using True by (subst scan_up.simps) auto
  next
    case False
    then show ?thesis by (subst scan_up.simps) auto
  qed
qed

lemma scan_down_le: "scan_down P xs i j \<le> j"
proof (induction P xs i j rule: scan_down.induct)
  case (1 P xs i j)
  show ?case
  proof (cases "i \<le> j \<and> P (xs ! nat j)")
    case True
    from "1.IH" [OF True] show ?thesis using True by (subst scan_down.simps) auto
  next
    case False
    then show ?thesis by (subst scan_down.simps) auto
  qed
qed

text \<open>
  Their outer loop: both scans, then \<open>break\<close> when \<open>i > j\<close>, otherwise a swap and one
  step inwards. It returns the slice and the final \<open>i\<close> and \<open>j\<close>.
\<close>

function partition_scan ::
  "('a \<Rightarrow> bool) \<Rightarrow> ('a \<Rightarrow> bool) \<Rightarrow> 'a list \<Rightarrow> int \<Rightarrow> int \<Rightarrow> 'a list \<times> int \<times> int" where
  "partition_scan up down xs i j =
     (if scan_up up xs i j > scan_down down xs (scan_up up xs i j) j
      then (xs, scan_up up xs i j, scan_down down xs (scan_up up xs i j) j)
      else partition_scan up down
             (swapAt xs (scan_up up xs i j) (scan_down down xs (scan_up up xs i j) j))
             (scan_up up xs i j + 1) (scan_down down xs (scan_up up xs i j) j - 1))"
  by pat_completeness auto
termination
proof (relation "measure (\<lambda>(up, down, xs, i, j). nat (j + 1 - i))")
  show "wf (measure (\<lambda>(up, down, xs, i, j). nat (j + 1 - i)))" by simp
next
  fix up down :: "'a \<Rightarrow> bool" and xs :: "'a list" and i j :: int
  assume "\<not> scan_down down xs (scan_up up xs i j) j < scan_up up xs i j"
  then show "((up, down, swapAt xs (scan_up up xs i j) (scan_down down xs (scan_up up xs i j) j),
               scan_up up xs i j + 1, scan_down down xs (scan_up up xs i j) j - 1),
              (up, down, xs, i, j)) \<in> measure (\<lambda>(up, down, xs, i, j). nat (j + 1 - i))"
    using scan_up_ge [of i up xs j] scan_down_le [of down xs "scan_up up xs i j" j] by simp
qed

declare partition_scan.simps [simp del]

text \<open>
  \<open>partition_func\<close> moves the pivot to the front, runs the two scans once (if they
  cross, the slice was already partitioned) and then the loop, and puts the pivot at its
  place \<open>j\<close>. Indices count from the start \<open>a\<close> of the part being sorted.
\<close>

definition partition_func ::
  "('a \<Rightarrow> 'a \<Rightarrow> bool) \<Rightarrow> 'a list \<Rightarrow> int \<Rightarrow> 'a list \<times> int \<times> bool" where
  "partition_func lt xs pivot =
     (let xs1 = swapAt xs 0 pivot;
          p = xs1 ! 0;
          i = scan_up (\<lambda>x. lt x p) xs1 1 (int (length xs) - 1);
          j = scan_down (\<lambda>x. \<not> lt x p) xs1 i (int (length xs) - 1)
      in if i > j then (swapAt xs1 j 0, j, True)
         else (case partition_scan (\<lambda>x. lt x p) (\<lambda>x. \<not> lt x p) (swapAt xs1 i j) (i + 1) (j - 1) of
                 (xs2, i2, j2) \<Rightarrow> (swapAt xs2 j2 0, j2, False)))"

text \<open>
  \<open>partitionEqual_func\<close> splits into the entries equal to the pivot and those greater,
  and returns the first index of the latter.
\<close>

definition partitionEqual_func ::
  "('a \<Rightarrow> 'a \<Rightarrow> bool) \<Rightarrow> 'a list \<Rightarrow> int \<Rightarrow> 'a list \<times> int" where
  "partitionEqual_func lt xs pivot =
     (let xs1 = swapAt xs 0 pivot;
          p = xs1 ! 0
      in case partition_scan (\<lambda>x. \<not> lt p x) (\<lambda>x. lt p x) xs1 1 (int (length xs) - 1) of
           (xs2, i2, j2) \<Rightarrow> (xs2, i2))"

text \<open>
  \<open>pdqsort_func(data, a, b, limit)\<close> on the part \<open>xs = data[a:b]\<close>; \<open>prev\<close> is
  \<open>data[a-1]\<close> when \<open>a > 0\<close>. The \<open>for\<close> loop of the program sorts one side of
  the pivot by a recursive call and goes on with the other side; here both are
  recursive calls, the second of which carries the flags \<open>wasBalanced\<close> and
  \<open>wasPartitioned\<close> of the next iteration. The first argument bounds the depth of the
  recursion, which is below the length since the pivot leaves the part at each step.

  Not modelled, with result \<open>None\<close>: \<open>breakPatterns_func\<close>, which swaps three
  pseudo-randomly chosen entries after an unbalanced partition (and with it the heap sort
  taken once \<open>limit\<close>, lowered there only, reaches 0), and parts of 50 entries or
  more, where the pivot is chosen by \<open>medianAdjacent_func\<close> and
  \<open>partialInsertionSort_func\<close> shifts entries.
\<close>

fun pdqsort_func ::
  "nat \<Rightarrow> ('a \<Rightarrow> 'a \<Rightarrow> bool) \<Rightarrow> 'a option \<Rightarrow> 'a list \<Rightarrow> bool \<Rightarrow> bool \<Rightarrow> 'a list option" where
  "pdqsort_func fuel lt prev xs wasBalanced wasPartitioned =
     (if length xs \<le> 12 then Some (insertionSort lt xs)
      else case fuel of
        0 \<Rightarrow> None
      | Suc n \<Rightarrow>
          if 50 \<le> length xs \<or> \<not> wasBalanced then None
          else
            (case choosePivot_func lt xs of (pivot, increasing) \<Rightarrow>
               if wasPartitioned \<and> increasing \<and> partialInsertionSort_func lt xs then Some xs
               else if (case prev of None \<Rightarrow> False | Some q \<Rightarrow> \<not> lt q (xs ! nat pivot)) then
                 (case partitionEqual_func lt xs pivot of (ys, mid) \<Rightarrow>
                    map_option ((@) (take (nat mid) ys))
                      (pdqsort_func n lt (Some (ys ! nat (mid - 1))) (drop (nat mid) ys)
                         wasBalanced wasPartitioned))
               else
                 (case partition_func lt xs pivot of (ys, mid, alreadyPartitioned) \<Rightarrow>
                    let leftLen = mid;
                        rightLen = int (length xs) - mid;
                        balanceThreshold = int (length xs) div 8;
                        left = take (nat mid) ys;
                        p = ys ! nat mid;
                        right = drop (nat (mid + 1)) ys
                    in if leftLen < rightLen then
                         (case pdqsort_func n lt prev left True True of
                            None \<Rightarrow> None
                          | Some l \<Rightarrow>
                              map_option (\<lambda>r. l @ p # r)
                                (pdqsort_func n lt (Some p) right
                                   (leftLen \<ge> balanceThreshold) alreadyPartitioned))
                       else
                         (case pdqsort_func n lt (Some p) right True True of
                            None \<Rightarrow> None
                          | Some r \<Rightarrow>
                              map_option (\<lambda>l. l @ p # r)
                                (pdqsort_func n lt prev left
                                   (rightLen \<ge> balanceThreshold) alreadyPartitioned)))))"

text \<open>\<open>sort.Slice(x, less)\<close> is \<open>pdqsort_func(data, 0, length, bits.Len(length))\<close>.\<close>

definition sort_Slice :: "('a \<Rightarrow> 'a \<Rightarrow> bool) \<Rightarrow> 'a list \<Rightarrow> 'a list option" where
  "sort_Slice lt xs = pdqsort_func (length xs) lt None xs True True"

section \<open>Properties of the packer\<close>

subsection \<open>The invariant of the bin\<close>

definition inBin :: "int \<Rightarrow> int \<Rightarrow> mrRect \<Rightarrow> bool" where
  "inBin bw bh r \<longleftrightarrow> 0 \<le> rX r \<and> 0 \<le> rY r \<and> rX r + rW r \<le> bw \<and> rY r + rH r \<le> bh"

definition insideOf :: "mrRect \<Rightarrow> mrRect \<Rightarrow> bool" where
  "insideOf a b \<longleftrightarrow>
     rX b \<le> rX a \<and> rY b \<le> rY a \<and> rX a + rW a \<le> rX b + rW b \<and> rY a + rH a \<le> rY b + rH b"

text \<open>
  The free rectangles lie in the bin, have no negative side and miss every used
  rectangle; the used rectangles lie in the bin and miss one another.
\<close>

definition binInv :: "maxRects \<Rightarrow> bool" where
  "binInv m \<longleftrightarrow>
     (\<forall>f \<in> set (mFree m). inBin (mW m) (mH m) f \<and> 0 \<le> rW f \<and> 0 \<le> rH f \<and>
                            (\<forall>u \<in> set (mUsed m). misses u f)) \<and>
     (\<forall>u \<in> set (mUsed m). inBin (mW m) (mH m) u) \<and>
     (\<forall>i < length (mUsed m). \<forall>j < length (mUsed m). i \<noteq> j \<longrightarrow> misses (mUsed m ! i) (mUsed m ! j))"

lemma misses_sym: "misses a b \<Longrightarrow> misses b a"
  by (auto simp: misses_def)

lemma insideOf_inBin: "insideOf a b \<Longrightarrow> inBin bw bh b \<Longrightarrow> inBin bw bh a"
  by (auto simp: insideOf_def inBin_def)

lemma insideOf_misses: "insideOf a b \<Longrightarrow> misses u b \<Longrightarrow> misses u a"
  by (auto simp: insideOf_def misses_def)

lemma splitParts_insideOf:
  "\<not> misses used fr \<Longrightarrow> p \<in> set (splitParts fr used) \<Longrightarrow> insideOf p fr"
  by (auto simp: splitParts_def misses_def insideOf_def split: if_splits)

lemma splitParts_nonneg:
  "0 \<le> rW fr \<Longrightarrow> 0 \<le> rH fr \<Longrightarrow> p \<in> set (splitParts fr used) \<Longrightarrow> 0 \<le> rW p \<and> 0 \<le> rH p"
  by (auto simp: splitParts_def split: if_splits)

lemma set_removeAt: "set (removeAt s i) \<subseteq> set s"
proof (cases "i \<ge> length s")
  case True
  then show ?thesis by (simp add: removeAt_def)
next
  case False
  have "set (take i s) \<subseteq> set s" by (rule set_take_subset)
  moreover have "set (drop (Suc i) s) \<subseteq> set s" by (rule set_drop_subset)
  ultimately show ?thesis using False by (auto simp: removeAt_def)
qed

lemma splitFree_True:
  "fst (splitFree fs i used) \<Longrightarrow>
   \<not> misses used (fs ! i) \<and> snd (splitFree fs i used) = fs @ splitParts (fs ! i) used"
  by (auto simp: splitFree_def Let_def split: if_splits)

lemma splitFree_False: "\<not> fst (splitFree fs i used) \<Longrightarrow> misses used (fs ! i)"
  by (auto simp: splitFree_def Let_def split: if_splits)

text \<open>Whatever holds of the free rectangles and of the parts split off them holds after the loop.\<close>

lemma place_loop_preserves:
  "(\<And>f p. P f \<Longrightarrow> \<not> misses used f \<Longrightarrow> p \<in> set (splitParts f used) \<Longrightarrow> P p) \<Longrightarrow>
   \<forall>f \<in> set fs. P f \<Longrightarrow> \<forall>r \<in> set (place_loop used i fs). P r"
proof (induction used i fs rule: place_loop.induct)
  case (1 used i fs)
  note unf = place_loop.simps [of used i fs]
  note step = "1.prems"(1)
  note allP = "1.prems"(2)
  show ?case
  proof (cases "i < length fs")
    case False
    then show ?thesis using allP by (simp add: unf)
  next
    case True
    note i = True
    show ?thesis
    proof (cases "fst (splitFree fs i used)")
      case True
      from splitFree_True [OF True]
      have h: "\<not> misses used (fs ! i)"
        and s: "snd (splitFree fs i used) = fs @ splitParts (fs ! i) used" by simp_all
      have Pi: "P (fs ! i)" using allP i by simp
      have "\<forall>f \<in> set (fs @ splitParts (fs ! i) used). P f"
        using allP step [OF Pi h] by auto
      then have "\<forall>f \<in> set (removeAt (snd (splitFree fs i used)) i). P f"
        using set_removeAt [of "fs @ splitParts (fs ! i) used" i] unfolding s by blast
      from "1.IH"(1) [OF i True step this] show ?thesis
        using i True by (simp add: unf)
    next
      case False
      from "1.IH"(2) [OF i False step allP] show ?thesis
        using i False by (simp add: unf)
    qed
  qed
qed

lemma place_loop_misses:
  "\<forall>k < i. misses used (fs ! k) \<Longrightarrow> \<forall>r \<in> set (place_loop used i fs). misses used r"
proof (induction used i fs rule: place_loop.induct)
  case (1 used i fs)
  note unf = place_loop.simps [of used i fs]
  show ?case
  proof (cases "i < length fs")
    case False
    then have "\<forall>r \<in> set fs. misses used r"
      using "1.prems" by (auto simp: in_set_conv_nth)
    then show ?thesis using False by (simp add: unf)
  next
    case True
    note i = True
    show ?thesis
    proof (cases "fst (splitFree fs i used)")
      case True
      from splitFree_True [OF True]
      have s: "snd (splitFree fs i used) = fs @ splitParts (fs ! i) used" by simp
      have r: "removeAt (snd (splitFree fs i used)) i
                 = take i fs @ drop (Suc i) fs @ splitParts (fs ! i) used"
        unfolding s using i by (rule removeAt_append_lt)
      have "\<forall>k < i. misses used (removeAt (snd (splitFree fs i used)) i ! k)"
        unfolding r using "1.prems" i by (simp add: nth_append)
      from "1.IH"(1) [OF i True this] show ?thesis
        using i True by (simp add: unf)
    next
      case False
      from splitFree_False [OF False] have "misses used (fs ! i)" .
      then have "\<forall>k < Suc i. misses used (fs ! k)"
        using "1.prems" by (auto simp: less_Suc_eq)
      from "1.IH"(2) [OF i False this] show ?thesis
        using i False by (simp add: unf)
    qed
  qed
qed

lemma set_prune_inner: "set (fst (prune_inner a i j fs)) \<subseteq> set fs"
proof (induction a i j fs rule: prune_inner.induct)
  case (1 a i j fs)
  note unf = prune_inner.simps [of a i j fs]
  show ?case
  proof (cases "j < length fs")
    case False
    then show ?thesis by (simp add: unf)
  next
    case True
    note j = True
    show ?thesis
    proof (cases "containedIn a (fs ! j)")
      case True
      then show ?thesis using j set_removeAt [of fs i] by (simp add: unf)
    next
      case False
      note nc = False
      show ?thesis
      proof (cases "containedIn (fs ! j) a")
        case True
        from "1.IH"(1) [OF j nc True] set_removeAt [of fs j] show ?thesis
          using j nc True by (auto simp: unf)
      next
        case False
        from "1.IH"(2) [OF j nc False] show ?thesis
          using j nc False by (simp add: unf)
      qed
    qed
  qed
qed

lemma set_prune_outer: "set (prune_outer i fs) \<subseteq> set fs"
proof (induction i fs rule: prune_outer.induct)
  case (1 i fs)
  note unf = prune_outer.simps [of i fs]
  note inner = set_prune_inner [of "fs ! i" i "Suc i" fs]
  show ?case
  proof (cases "i < length fs")
    case False
    then show ?thesis by (simp add: unf)
  next
    case True
    note i = True
    show ?thesis
    proof (cases "snd (prune_inner (fs ! i) i (Suc i) fs)")
      case True
      from "1.IH"(1) [OF i True] inner show ?thesis
        using i True by (auto simp: unf)
    next
      case False
      from "1.IH"(2) [OF i False] inner show ?thesis
        using i False by (auto simp: unf)
    qed
  qed
qed

lemma set_pruneFree: "set (pruneFree fs) \<subseteq> set fs"
  unfolding pruneFree_def by (rule set_prune_outer)

text \<open>What \<open>place\<close> leaves in the free list.\<close>

lemma place_free:
  assumes P: "\<forall>f \<in> set (mFree m). P f"
    and step: "\<And>f p. P f \<Longrightarrow> \<not> misses used f \<Longrightarrow> p \<in> set (splitParts f used) \<Longrightarrow> P p"
    and f: "f \<in> set (mFree (place m used))"
  shows "P f \<and> misses used f"
proof -
  have "f \<in> set (place_loop used 0 (mFree m))"
    using f set_pruneFree [of "place_loop used 0 (mFree m)"] by (auto simp: place_def)
  moreover have "\<forall>r \<in> set (place_loop used 0 (mFree m)). P r"
    using step P by (rule place_loop_preserves)
  moreover have "\<forall>r \<in> set (place_loop used 0 (mFree m)). misses used r"
    by (rule place_loop_misses) simp
  ultimately show ?thesis by blast
qed

text \<open>A rectangle chosen by the scan sits in the corner of a free rectangle that holds it.\<close>

definition chosenFrom :: "mrRect set \<Rightarrow> int \<Rightarrow> int \<Rightarrow> mrRect \<Rightarrow> bool" where
  "chosenFrom F w h b \<longleftrightarrow>
     (\<exists>fr \<in> F. rX b = rX fr \<and> rY b = rY fr \<and> rW b \<le> rW fr \<and> rH b \<le> rH fr) \<and>
     ((rW b = w \<and> rH b = h \<and> \<not> rRotated b) \<or> (rW b = h \<and> rH b = w \<and> rRotated b))"

definition scanOk :: "mrRect set \<Rightarrow> int \<Rightarrow> int \<Rightarrow> mrRect \<times> int \<times> int \<times> bool \<Rightarrow> bool" where
  "scanOk F w h st \<longleftrightarrow> (snd (snd (snd st)) \<longrightarrow> chosenFrom F w h (fst st))"

lemma try_fit_cases:
  "try_fit m rule fr rw rh rot st = st \<or>
   (\<exists>p s. try_fit m rule fr rw rh rot st
      = (\<lparr>rX = rX fr, rY = rY fr, rW = rw, rH = rh, rRotated = rot\<rparr>, p, s, True))"
  by (auto simp: try_fit_def split: prod.splits)

lemma try_fit_scanOk:
  assumes "scanOk F w h st" and "fr \<in> F" and "rw \<le> rW fr" and "rh \<le> rH fr"
    and "(rw = w \<and> rh = h \<and> \<not> rot) \<or> (rw = h \<and> rh = w \<and> rot)"
  shows "scanOk F w h (try_fit m rule fr rw rh rot st)"
  using try_fit_cases [of m rule fr rw rh rot st]
proof
  assume "try_fit m rule fr rw rh rot st = st"
  then show ?thesis using assms(1) by simp
next
  assume "\<exists>p s. try_fit m rule fr rw rh rot st
            = (\<lparr>rX = rX fr, rY = rY fr, rW = rw, rH = rh, rRotated = rot\<rparr>, p, s, True)"
  then obtain p s where "try_fit m rule fr rw rh rot st
            = (\<lparr>rX = rX fr, rY = rY fr, rW = rw, rH = rh, rRotated = rot\<rparr>, p, s, True)"
    by blast
  then show ?thesis using assms(2-5) by (auto simp: scanOk_def chosenFrom_def)
qed

lemma scan_step_scanOk:
  assumes "scanOk F w h st" and "fr \<in> F"
  shows "scanOk F w h (scan_step m w h rule fr st)"
proof -
  let ?st1 = "if rW fr \<ge> w \<and> rH fr \<ge> h then try_fit m rule fr w h False st else st"
  have 1: "scanOk F w h ?st1"
    using assms try_fit_scanOk [of F w h st fr w h False m rule] by simp
  have "scanOk F w h (if mAllowRotate m \<and> rW fr \<ge> h \<and> rH fr \<ge> w
                      then try_fit m rule fr h w True ?st1 else ?st1)"
    using 1 assms(2) try_fit_scanOk [of F w h ?st1 fr h w True m rule] by presburger
  then show ?thesis by (simp add: scan_step_def Let_def)
qed

lemma insert_scan_scanOk:
  "scanOk F w h st \<Longrightarrow> set frs \<subseteq> F \<Longrightarrow> scanOk F w h (insert_scan m w h rule frs st)"
proof (induction frs arbitrary: st)
  case Nil
  then show ?case by simp
next
  case (Cons fr frs)
  have "scanOk F w h (scan_step m w h rule fr st)"
    using Cons.prems by (simp add: scan_step_scanOk)
  from Cons.IH [OF this] Cons.prems(2) show ?case by simp
qed

text \<open>A successful \<open>Insert\<close> keeps the invariant and appends the rectangle it returns.\<close>

lemma Insert_success:
  assumes ins: "Insert m w h rule = ((r, True), m')" and inv: "binInv m"
  shows "binInv m' \<and> mUsed m' = mUsed m @ [r] \<and> mW m' = mW m \<and> mH m' = mH m \<and>
         ((rW r = w \<and> rH r = h \<and> \<not> rRotated r) \<or> (rW r = h \<and> rH r = w \<and> rRotated r)) \<and>
         0 \<le> rX r \<and> rX r \<le> mW m \<and> 0 \<le> rY r \<and> rY r \<le> mH m"
proof -
  let ?F = "set (mFree m)"
  let ?st0 = "(zeroRect, 1073741824 :: int, 1073741824 :: int, False)"
  obtain best pri sec found where
    sc: "insert_scan m w h rule (mFree m) ?st0 = (best, pri, sec, found)"
    by (cases "insert_scan m w h rule (mFree m) ?st0") auto
  from ins sc have found: "found" and r: "r = best" and m': "m' = place m r"
    by (auto simp: Insert_def split: if_splits)
  have "scanOk ?F w h ?st0" by (simp add: scanOk_def)
  then have "scanOk ?F w h (insert_scan m w h rule (mFree m) ?st0)"
    by (rule insert_scan_scanOk) simp
  then have ch: "chosenFrom ?F w h r"
    using sc found r by (simp add: scanOk_def)
  then obtain fr where fr: "fr \<in> ?F" and ins: "insideOf r fr"
    and corner: "rX r = rX fr" "rY r = rY fr"
    by (auto simp: chosenFrom_def insideOf_def)
  have frB: "inBin (mW m) (mH m) fr" and frU: "\<forall>u \<in> set (mUsed m). misses u fr"
    and frN: "0 \<le> rW fr" "0 \<le> rH fr"
    using inv fr by (auto simp: binInv_def)
  have pos: "0 \<le> rX r \<and> rX r \<le> mW m \<and> 0 \<le> rY r \<and> rY r \<le> mH m"
    using frB frN corner by (simp add: inBin_def)
  have rB: "inBin (mW m) (mH m) r" using ins frB by (rule insideOf_inBin)
  have rU: "\<forall>u \<in> set (mUsed m). misses u r"
    using ins frU by (auto intro: insideOf_misses)
  let ?P = "\<lambda>f. inBin (mW m) (mH m) f \<and> 0 \<le> rW f \<and> 0 \<le> rH f \<and>
                 (\<forall>u \<in> set (mUsed m). misses u f)"
  have P0: "\<forall>f \<in> set (mFree m). ?P f" using inv by (auto simp: binInv_def)
  have step: "\<And>f p. ?P f \<Longrightarrow> \<not> misses r f \<Longrightarrow> p \<in> set (splitParts f r) \<Longrightarrow> ?P p"
    using splitParts_insideOf insideOf_inBin insideOf_misses splitParts_nonneg by blast
  have free': "\<forall>f \<in> set (mFree m'). ?P f \<and> misses r f"
  proof
    fix f assume f: "f \<in> set (mFree m')"
    show "?P f \<and> misses r f"
    proof (rule place_free [where P = ?P and m = m])
      show "\<forall>f \<in> set (mFree m). ?P f" by (rule P0)
    next
      fix g p assume "?P g" and "\<not> misses r g" and "p \<in> set (splitParts g r)"
      then show "?P p" by (rule step)
    next
      show "f \<in> set (mFree (place m r))" using f by (simp add: m')
    qed
  qed
  have used': "mUsed m' = mUsed m @ [r]" and W': "mW m' = mW m" and H': "mH m' = mH m"
    unfolding m' by (simp_all add: place_def)
  have pw: "\<forall>i < length (mUsed m'). \<forall>j < length (mUsed m'). i \<noteq> j \<longrightarrow>
              misses (mUsed m' ! i) (mUsed m' ! j)"
  proof (intro allI impI)
    fix i j assume i: "i < length (mUsed m')" and j: "j < length (mUsed m')" and ne: "i \<noteq> j"
    let ?n = "length (mUsed m)"
    have old: "\<And>a b. a < ?n \<Longrightarrow> b < ?n \<Longrightarrow> a \<noteq> b \<Longrightarrow> misses (mUsed m ! a) (mUsed m ! b)"
      using inv by (simp add: binInv_def)
    have new: "\<And>a. a < ?n \<Longrightarrow> misses (mUsed m ! a) r"
      using rU by simp
    consider "i < ?n" "j < ?n" | "i < ?n" "j = ?n" | "i = ?n" "j < ?n"
      using i j ne unfolding used' by (simp add: less_Suc_eq) linarith
    then show "misses (mUsed m' ! i) (mUsed m' ! j)"
    proof cases
      case 1
      then show ?thesis unfolding used' using old ne by (simp add: nth_append)
    next
      case 2
      then show ?thesis unfolding used' using new by (simp add: nth_append)
    next
      case 3
      then show ?thesis unfolding used' using new misses_sym by (simp add: nth_append)
    qed
  qed
  have "binInv m'"
    unfolding binInv_def using free' pw rB inv
    by (auto simp: used' W' H' binInv_def)
  then show ?thesis using used' W' H' ch pos by (simp add: chosenFrom_def)
qed

lemma binInv_newMaxRects: "0 \<le> w \<Longrightarrow> 0 \<le> h \<Longrightarrow> binInv (newMaxRects w h rot)"
  by (simp add: binInv_def newMaxRects_def inBin_def)

subsection \<open>A run of Pack\<close>

text \<open>A run of \<open>Pack\<close> with a gap and a rotated image, evaluated.\<close>

definition demo_cfg :: "rat Config" where
  "demo_cfg =
     \<lparr>MinSize = 32, MaxSize = 32, Gap = 1, AspectPenalty = 0, Rule = BottomLeft,
      PreferHeight = False, ForceSquare = False, AllowRotate = True\<rparr>"

definition demo_images :: "ImageInfo list" where
  "demo_images =
     [\<lparr>iName = ''a'', iWidth = 10, iHeight = 12\<rparr>, \<lparr>iName = ''b'', iWidth = 20, iHeight = 5\<rparr>]"

definition demo_result :: Result where
  "demo_result =
     \<lparr>resWidth = 32, resHeight = 32,
      resPlacements =
        [\<lparr>pName = ''b'', pX = 1, pY = 1, pWidth = 20, pHeight = 5, pRotated = False\<rparr>,
         \<lparr>pName = ''a'', pX = 1, pY = 8, pWidth = 10, pHeight = 12, pRotated = True\<rparr>]\<rparr>"

lemma Pack_demo: "Pack insertionSort exact_ops demo_images demo_cfg = Some (Inr demo_result)"
  by code_simp

subsection \<open>Atlas sizes\<close>

definition isPow2 :: "int \<Rightarrow> bool" where
  "isPow2 n \<longleftrightarrow> (\<exists>k::nat. n = 2 ^ k)"

lemma isPow2_pos: "isPow2 n \<Longrightarrow> 0 < n"
  by (auto simp: isPow2_def)

lemma isPow2_double: "isPow2 n \<Longrightarrow> isPow2 (2 * n)"
proof -
  assume "isPow2 n"
  then obtain k :: nat where "n = 2 ^ k" by (auto simp: isPow2_def)
  then have "2 * n = 2 ^ Suc k" by simp
  then show ?thesis unfolding isPow2_def by blast
qed

text \<open>The test \<open>n&(n-1) == 0\<close> of \<open>nextPowerOfTwo\<close> on a positive \<open>n\<close>.\<close>

lemma pow2_of_and_pred:
  fixes n :: int
  shows "0 < n \<Longrightarrow> n AND (n - 1) = 0 \<Longrightarrow> isPow2 n"
proof (induction "nat n" arbitrary: n rule: less_induct)
  case less
  have "n AND (n - 1) = of_bool (odd n \<and> odd (n - 1)) + 2 * ((n div 2) AND ((n - 1) div 2))"
    by (rule and_int_rec)
  then have z: "(n div 2) AND ((n - 1) div 2) = 0"
    using less.prems(2) by simp
  show ?case
  proof (cases "even n")
    case True
    then obtain m where m: "n = 2 * m" by (elim evenE)
    have mpos: "0 < m" using less.prems(1) m by simp
    have "(n - 1) div 2 = m - 1" unfolding m by simp
    then have "m AND (m - 1) = 0" using z m by simp
    moreover have "nat m < nat n" using mpos m by simp
    ultimately have "isPow2 m" using less.hyps mpos by blast
    then show ?thesis unfolding m by (rule isPow2_double)
  next
    case False
    then obtain m where m: "n = 2 * m + 1" by (elim oddE)
    have "(n - 1) div 2 = m" "n div 2 = m" unfolding m by simp_all
    then have "m = 0" using z by simp
    then have "n = 2 ^ 0" using m by simp
    then show ?thesis unfolding isPow2_def by blast
  qed
qed

lemma npot_loop_pow2: "isPow2 p \<Longrightarrow> isPow2 (npot_loop p n) \<and> n \<le> npot_loop p n"
proof (induction p n rule: npot_loop.induct)
  case (1 p n)
  note unf = npot_loop.simps [of p n]
  show ?case
  proof (cases "p < n \<and> 0 < p")
    case True
    from "1.IH" [OF True isPow2_double [OF "1.prems"]] show ?thesis
      using True by (simp add: unf)
  next
    case False
    then have "n \<le> p" using isPow2_pos [OF "1.prems"] by auto
    then show ?thesis using False "1.prems" by (simp add: unf)
  qed
qed

lemma nextPowerOfTwo_pow2: "isPow2 (nextPowerOfTwo n) \<and> n \<le> nextPowerOfTwo n"
proof -
  have one: "isPow2 1" unfolding isPow2_def by (rule exI [of _ 0]) simp
  show ?thesis
    using one pow2_of_and_pred [of n] npot_loop_pow2 [OF one, of n]
    by (auto simp: nextPowerOfTwo_def)
qed

lemma startSize_pow2:
  assumes "isPow2 (MinSize cfg)"
  shows "isPow2 (startSize images cfg) \<and> MinSize cfg \<le> startSize images cfg"
proof -
  obtain minW minH where mp: "maxPadded images cfg (0, 0) = (minW, minH)"
    by (cases "maxPadded images cfg (0, 0)") auto
  let ?s1 = "if minW > MinSize cfg then nextPowerOfTwo minW else MinSize cfg"
  have s1: "isPow2 ?s1 \<and> MinSize cfg \<le> ?s1"
    using assms nextPowerOfTwo_pow2 [of minW] by auto
  let ?s2 = "if minH > ?s1 then nextPowerOfTwo minH else ?s1"
  have s2: "isPow2 ?s2 \<and> MinSize cfg \<le> ?s2"
  proof (cases "minH > ?s1")
    case True
    then show ?thesis using s1 nextPowerOfTwo_pow2 [of minH] by auto
  next
    case False
    then show ?thesis using s1 by presburger
  qed
  have "startSize images cfg = ?s2" by (simp add: startSize_def mp Let_def)
  then show ?thesis using s2 by simp
qed

lemma size_steps_elems:
  "size_steps s maxSize = Some ss \<Longrightarrow> x \<in> set ss \<Longrightarrow>
   (\<exists>j::nat. x = s * 2 ^ j) \<and> x \<le> maxSize"
proof (induction s maxSize arbitrary: ss rule: size_steps.induct)
  case (1 s maxSize)
  note unf = size_steps.simps [of s maxSize]
  show ?case
  proof (cases "s \<le> maxSize")
    case False
    then show ?thesis using "1.prems" by (simp add: unf)
  next
    case True
    note le = True
    show ?thesis
    proof (cases "s \<le> 0")
      case True
      then show ?thesis using le "1.prems" by (simp add: unf)
    next
      case False
      from "1.prems"(1) le False obtain ss' where
        rec: "size_steps (2 * s) maxSize = Some ss'" and ss: "ss = s # ss'"
        by (auto simp: unf)
      show ?thesis
      proof (cases "x = s")
        case True
        have "x = s * 2 ^ (0::nat)" using True by simp
        then have "\<exists>j::nat. x = s * 2 ^ j" by (rule exI)
        then show ?thesis using le True by simp
      next
        case False
        then have "x \<in> set ss'" using "1.prems"(2) ss by simp
        from "1.IH" [OF le \<open>\<not> s \<le> 0\<close> rec this]
        obtain j :: nat where "x = 2 * s * 2 ^ j" and xm: "x \<le> maxSize" by blast
        then have "x = s * 2 ^ Suc j" by simp
        then have "\<exists>j::nat. x = s * 2 ^ j" by (rule exI)
        then show ?thesis using xm by simp
      qed
    qed
  qed
qed

lemma potc_loop_pow2:
  "j \<le> a \<Longrightarrow> potc_loop (2 ^ j) (int j) (2 ^ a) = int a"
proof (induction "a - j" arbitrary: j)
  case 0
  then have "j = a" by simp
  then show ?case by (simp add: potc_loop.simps [of "2 ^ a" "int a" "2 ^ a"])
next
  case (Suc d)
  then have lt: "j < a" by simp
  then have "(2::int) ^ j < 2 ^ a" by simp
  then have "potc_loop (2 ^ j) (int j) (2 ^ a) = potc_loop (2 ^ Suc j) (int (Suc j)) (2 ^ a)"
    by (simp add: potc_loop.simps [of "2 ^ j" "int j" "2 ^ a"] add.commute)
  also have "\<dots> = int a"
    using Suc.hyps(1) [of "Suc j"] Suc.hyps(2) lt by simp
  finally show ?case .
qed

lemma powerOfTwoCeil_pow2: "powerOfTwoCeil (2 ^ a) = int a"
  using potc_loop_pow2 [of 0 a] by (simp add: powerOfTwoCeil_def)

lemma absPowerDiff_pow2: "absPowerDiff (2 ^ a) (2 ^ b) = \<bar>int a - int b\<bar>"
  by (simp add: absPowerDiff_def powerOfTwoCeil_pow2 Let_def)

text \<open>What \<open>try\<close> tests before it looks at the score.\<close>

definition accepted :: "'f Config \<Rightarrow> int \<times> int \<Rightarrow> bool" where
  "accepted cfg wh \<longleftrightarrow>
     fst wh \<le> MaxSize cfg \<and> snd wh \<le> MaxSize cfg \<and>
     (if ForceSquare cfg then fst wh = snd wh else absPowerDiff (fst wh) (snd wh) \<le> 1)"

lemma try_size_cases:
  "try_size ops images cfg rule wh st = st \<or>
   (fst (try_size ops images cfg rule wh st) = fst wh \<and>
    fst (snd (try_size ops images cfg rule wh st)) = snd wh \<and> accepted cfg wh)"
  by (cases wh; cases st) (auto simp: try_size_def accepted_def Let_def split: if_splits)

lemma fold_try_size:
  "fold (try_size ops images cfg rule) cands st = (bw, bh, bs) \<Longrightarrow>
   (bw, bh) = (fst st, fst (snd st)) \<or> ((bw, bh) \<in> set cands \<and> accepted cfg (bw, bh))"
proof (induction cands arbitrary: st)
  case Nil
  then show ?case by auto
next
  case (Cons c cands)
  let ?st = "try_size ops images cfg rule c st"
  have "fold (try_size ops images cfg rule) cands ?st = (bw, bh, bs)"
    using Cons.prems by simp
  from Cons.IH [OF this]
  show ?case
  proof
    assume e: "(bw, bh) = (fst ?st, fst (snd ?st))"
    from try_size_cases [of ops images cfg rule c st]
    show ?thesis
    proof
      assume "?st = st"
      then show ?thesis using e by simp
    next
      assume "fst ?st = fst c \<and> fst (snd ?st) = snd c \<and> accepted cfg c"
      then have "(bw, bh) = c \<and> accepted cfg c" using e by (simp add: prod_eq_iff)
      then show ?thesis by auto
    qed
  next
    assume "(bw, bh) \<in> set cands \<and> accepted cfg (bw, bh)"
    then show ?thesis by simp
  qed
qed

lemma findOptimalSize_result:
  assumes "findOptimalSize ops images cfg = Some (w, h)"
  shows "(w, h) = (startSize images cfg, startSize images cfg) \<or>
         (\<exists>ss. size_steps (startSize images cfg) (MaxSize cfg) = Some ss \<and>
               w \<in> set ss \<and> h \<in> set ss \<and> accepted cfg (w, h))"
proof -
  let ?size = "startSize images cfg"
  from assms obtain ss where ss: "size_steps ?size (MaxSize cfg) = Some ss"
    by (auto simp: findOptimalSize_def Let_def split: option.splits)
  let ?cands = "if ForceSquare cfg then map (\<lambda>s. (s, s)) ss
                else if PreferHeight cfg then concat (map (\<lambda>w. map (\<lambda>h. (w, h)) ss) ss)
                else concat (map (\<lambda>h. map (\<lambda>w. (w, h)) ss) ss)"
  have sub: "set ?cands \<subseteq> set ss \<times> set ss" by auto
  obtain bs where
    "fold (try_size ops images cfg (normRule (Rule cfg))) ?cands (?size, ?size, fMaxFloat64 ops)
       = (w, h, bs)"
    using assms ss by (auto simp: findOptimalSize_def Let_def split: prod.splits)
  from fold_try_size [OF this] sub ss show ?thesis by auto
qed

text \<open>
  Claim C3, amended. When \<open>Pack\<close> succeeds and \<open>MinSize\<close> is a power of two, the atlas
  width and height are powers of two in \<open>[MinSize, MaxSize]\<close> whose binary logarithms
  differ by at most 1, and they are equal under \<open>ForceSquare\<close>.
\<close>

theorem Pack_atlas_size_pow2:
  assumes ok: "Pack srt ops images cfg = Some (Inr res)" and mp: "isPow2 (MinSize cfg)"
  shows "isPow2 (resWidth res) \<and> isPow2 (resHeight res) \<and>
         MinSize cfg \<le> resWidth res \<and> resWidth res \<le> MaxSize cfg \<and>
         MinSize cfg \<le> resHeight res \<and> resHeight res \<le> MaxSize cfg \<and>
         (\<exists>a b::nat. resWidth res = 2 ^ a \<and> resHeight res = 2 ^ b \<and> a \<le> b + 1 \<and> b \<le> a + 1) \<and>
         (ForceSquare cfg \<longrightarrow> resWidth res = resHeight res)"
proof -
  from ok have valid: "validateConfig cfg = None"
    by (auto simp: Pack_def split: option.splits)
  then have mm: "MinSize cfg \<le> MaxSize cfg"
    by (auto simp: validateConfig_def split: if_splits)
  have square: "\<And>s. isPow2 s \<Longrightarrow> \<exists>a b::nat. s = 2 ^ a \<and> s = 2 ^ b \<and> a \<le> b + 1 \<and> b \<le> a + 1"
    by (auto simp: isPow2_def)
  show ?thesis
  proof (cases "length images = 0")
    case True
    then have "res = \<lparr>resWidth = MinSize cfg, resHeight = MinSize cfg, resPlacements = []\<rparr>"
      using ok valid by (simp add: Pack_def)
    then show ?thesis using mp mm square [OF mp] by simp
  next
    case False
    let ?imgs = "sortImagesForPacking srt images cfg"
    let ?size = "startSize ?imgs cfg"
    from ok False valid obtain w h ps where
      fo: "findOptimalSize ops ?imgs cfg = Some (w, h)"
      and wm: "w \<le> MaxSize cfg" and hm: "h \<le> MaxSize cfg"
      and res: "res = \<lparr>resWidth = w, resHeight = h, resPlacements = ps\<rparr>"
      by (auto simp: Pack_def Let_def split: option.splits if_splits sum.splits)
    have sp: "isPow2 ?size" and sm: "MinSize cfg \<le> ?size"
      using startSize_pow2 [OF mp, of ?imgs] by simp_all
    from sp obtain k :: nat where k: "?size = 2 ^ k" by (auto simp: isPow2_def)
    from findOptimalSize_result [OF fo]
    have "isPow2 w \<and> isPow2 h \<and> ?size \<le> w \<and> ?size \<le> h \<and>
          (\<exists>a b::nat. w = 2 ^ a \<and> h = 2 ^ b \<and> a \<le> b + 1 \<and> b \<le> a + 1) \<and>
          (ForceSquare cfg \<longrightarrow> w = h)"
    proof
      assume "(w, h) = (?size, ?size)"
      then show ?thesis using sp square [OF sp] by simp
    next
      assume "\<exists>ss. size_steps ?size (MaxSize cfg) = Some ss \<and>
                   w \<in> set ss \<and> h \<in> set ss \<and> accepted cfg (w, h)"
      then obtain ss where ss: "size_steps ?size (MaxSize cfg) = Some ss"
        and w: "w \<in> set ss" and h: "h \<in> set ss" and acc: "accepted cfg (w, h)" by blast
      from size_steps_elems [OF ss w] obtain i :: nat where "w = ?size * 2 ^ i" by blast
      then have wi: "w = 2 ^ (k + i)" by (simp add: k power_add)
      from size_steps_elems [OF ss h] obtain j :: nat where "h = ?size * 2 ^ j" by blast
      then have hj: "h = 2 ^ (k + j)" by (simp add: k power_add)
      have pw: "isPow2 w" and ph: "isPow2 h"
        unfolding isPow2_def using wi hj by blast+
      have ge: "?size \<le> w" "?size \<le> h"
        unfolding k wi hj by (simp_all add: power_increasing)
      have sq: "ForceSquare cfg \<longrightarrow> w = h"
        using acc by (auto simp: accepted_def split: if_splits)
      have near: "k + i \<le> (k + j) + 1 \<and> k + j \<le> (k + i) + 1"
      proof (cases "ForceSquare cfg")
        case True
        then have "(2::int) ^ (k + i) = 2 ^ (k + j)" using sq wi hj by simp
        then have "k + i = k + j" by simp
        then show ?thesis by simp
      next
        case False
        then have "absPowerDiff (2 ^ (k + i)) (2 ^ (k + j)) \<le> 1"
          using acc wi hj by (simp add: accepted_def)
        then have "\<bar>int (k + i) - int (k + j)\<bar> \<le> 1" by (simp only: absPowerDiff_pow2)
        then show ?thesis by linarith
      qed
      have "\<exists>a b::nat. w = 2 ^ a \<and> h = 2 ^ b \<and> a \<le> b + 1 \<and> b \<le> a + 1"
        using wi hj near by blast
      then show ?thesis using pw ph ge sq by simp
    qed
    then show ?thesis using sm wm hm by (simp add: res)
  qed
qed

theorem Pack_atlas_size_pow2_witness:
  "Pack insertionSort exact_ops demo_images demo_cfg = Some (Inr demo_result) \<and>
   isPow2 (MinSize demo_cfg) \<and> isPow2 (resWidth demo_result) \<and> isPow2 (resHeight demo_result) \<and>
   (\<exists>a b::nat. resWidth demo_result = 2 ^ a \<and> resHeight demo_result = 2 ^ b \<and>
              a \<le> b + 1 \<and> b \<le> a + 1)"
proof -
  have "(32::int) = 2 ^ 5" by simp
  then have mp: "isPow2 (MinSize demo_cfg)"
    unfolding isPow2_def demo_cfg_def by (simp del: power_Suc) (rule exI [of _ 5], simp)
  from Pack_atlas_size_pow2 [OF Pack_demo mp] Pack_demo mp show ?thesis by simp
qed

text \<open>
  The claim as first stated does not ask for \<open>MinSize\<close> to be a power of two, and
  \<open>validateConfig\<close> does not either: with \<open>MinSize = 24\<close> the atlas is 24 by 24.
\<close>

definition odd_cfg :: "rat Config" where
  "odd_cfg =
     \<lparr>MinSize = 24, MaxSize = 64, Gap = 1, AspectPenalty = 0, Rule = BestShortSideFit,
      PreferHeight = False, ForceSquare = False, AllowRotate = False\<rparr>"

definition odd_result :: Result where
  "odd_result =
     \<lparr>resWidth = 24, resHeight = 24,
      resPlacements =
        [\<lparr>pName = ''a'', pX = 1, pY = 1, pWidth = 10, pHeight = 10, pRotated = False\<rparr>]\<rparr>"

lemma not_isPow2_24: "\<not> isPow2 24"
proof
  assume "isPow2 24"
  then obtain k :: nat where k: "(24::int) = 2 ^ k" by (auto simp: isPow2_def)
  show False
  proof (cases "k < 5")
    case True
    then have "k = 0 \<or> k = 1 \<or> k = 2 \<or> k = 3 \<or> k = 4" by arith
    then show False using k by auto
  next
    case False
    then have "(2::int) ^ 5 \<le> 2 ^ k" by (intro power_increasing) simp_all
    then show False using k by simp
  qed
qed

theorem Pack_atlas_size_counterexample:
  "validateConfig odd_cfg = None \<and>
   Pack insertionSort exact_ops [\<lparr>iName = ''a'', iWidth = 10, iHeight = 10\<rparr>] odd_cfg
     = Some (Inr odd_result) \<and>
   \<not> isPow2 (resWidth odd_result)"
proof -
  have "Pack insertionSort exact_ops [\<lparr>iName = ''a'', iWidth = 10, iHeight = 10\<rparr>] odd_cfg
          = Some (Inr odd_result)"
    by code_simp
  moreover have "validateConfig odd_cfg = None"
    by (simp add: validateConfig_def odd_cfg_def)
  ultimately show ?thesis using not_isPow2_24 by (simp add: odd_result_def)
qed

subsection \<open>The tie-break of the size search\<close>

definition tie_cfg :: "bool \<Rightarrow> rat Config" where
  "tie_cfg preferHeight =
     \<lparr>MinSize = 16, MaxSize = 64, Gap = 0, AspectPenalty = 1 / 4, Rule = BestShortSideFit,
      PreferHeight = preferHeight, ForceSquare = False, AllowRotate = False\<rparr>"

definition tie_images :: "ImageInfo list" where
  "tie_images =
     [\<lparr>iName = ''a'', iWidth = 30, iHeight = 20\<rparr>, \<lparr>iName = ''b'', iWidth = 30, iHeight = 20\<rparr>]"

text \<open>
  Claim C8. On two 30 by 20 inputs with \<open>MinSize\<close> 16, \<open>MaxSize\<close> 64, penalty 0.25,
  \<open>BestShortSideFit\<close>, no gap and no rotation, \<open>findOptimalSize\<close> returns \<open>(64, 32)\<close>,
  and \<open>(32, 64)\<close> with \<open>PreferHeight\<close>. Every score met (2560, 4096) and every
  intermediate value (2, 1, 0.25, 1.25) is exact in \<open>float64\<close>.
\<close>

theorem findOptimalSize_tie_break:
  "findOptimalSize exact_ops tie_images (tie_cfg False) = Some (64, 32) \<and>
   findOptimalSize exact_ops tie_images (tie_cfg True) = Some (32, 64)"
proof
  show "findOptimalSize exact_ops tie_images (tie_cfg False) = Some (64, 32)"
    by code_simp
  show "findOptimalSize exact_ops tie_images (tie_cfg True) = Some (32, 64)"
    by code_simp
qed

subsection \<open>Placements\<close>

text \<open>
  The rectangle a placement occupies has the sides of the source, swapped when the
  image was rotated. Two placements overlap as in the test suite's \<open>overlaps\<close>. Both
  notions are read on exact integers.
\<close>

definition placedW :: "Placement \<Rightarrow> int" where
  "placedW p = (if pRotated p then pHeight p else pWidth p)"

definition placedH :: "Placement \<Rightarrow> int" where
  "placedH p = (if pRotated p then pWidth p else pHeight p)"

definition overlaps :: "Placement \<Rightarrow> Placement \<Rightarrow> bool" where
  "overlaps a b \<longleftrightarrow>
     pX a < pX b + placedW b \<and> pX a + placedW a > pX b \<and>
     pY a < pY b + placedH b \<and> pY a + placedH a > pY b"

definition inAtlas :: "int \<Rightarrow> int \<Rightarrow> Placement \<Rightarrow> bool" where
  "inAtlas aw ah p \<longleftrightarrow>
     0 \<le> pX p \<and> 0 \<le> pY p \<and> pX p + placedW p \<le> aw \<and> pY p + placedH p \<le> ah"

definition placedIn :: "Placement \<Rightarrow> mrRect \<Rightarrow> bool" where
  "placedIn p r \<longleftrightarrow>
     rX r \<le> pX p \<and> rY r \<le> pY p \<and>
     pX p + placedW p \<le> rX r + rW r \<and> pY p + placedH p \<le> rY r + rH r"

text \<open>
  The inputs on which the padding cannot wrap: the padded sides of every image are
  \<open>int\<close> values, and so is a gap added to a position in the largest atlas, whose side is
  below \<open>2^62\<close>.
\<close>

definition noOverflow :: "'f Config \<Rightarrow> ImageInfo list \<Rightarrow> bool" where
  "noOverflow cfg images \<longleftrightarrow>
     MaxSize cfg < 4611686018427387904 \<and> Gap cfg < 4611686018427387904 \<and>
     list_all (\<lambda>im. inInt64 (iWidth im + 2 * Gap cfg) \<and> inInt64 (iHeight im + 2 * Gap cfg)) images"

lemma w64_id: "inInt64 x \<Longrightarrow> w64 x = x"
  by (simp add: w64_def inInt64_def)

lemma w64_add_w64: "w64 (a + w64 b) = w64 (a + b)"
proof -
  have "(a + ((b + 9223372036854775808) mod 18446744073709551616 - 9223372036854775808)
           + 9223372036854775808) mod 18446744073709551616
        = (a + (b + 9223372036854775808) mod 18446744073709551616) mod 18446744073709551616"
    by simp
  also have "\<dots> = (a + (b + 9223372036854775808)) mod 18446744073709551616"
    by (rule mod_add_right_eq)
  finally show ?thesis by (simp add: w64_def add.assoc)
qed

lemma padded_id: "inInt64 (side + 2 * gap) \<Longrightarrow> padded side gap = side + 2 * gap"
  by (simp add: padded_def w64_add_w64 w64_id)

lemma placedIn_inAtlas: "placedIn p r \<Longrightarrow> inBin aw ah r \<Longrightarrow> inAtlas aw ah p"
  by (auto simp: placedIn_def inBin_def inAtlas_def)

lemma placedIn_overlaps: "placedIn p r \<Longrightarrow> placedIn q s \<Longrightarrow> misses r s \<Longrightarrow> \<not> overlaps p q"
  by (auto simp: placedIn_def misses_def overlaps_def)

lemma pack_loop_placed:
  "pack_loop cfg rule w h bin ims acc = Inr ps \<Longrightarrow> binInv bin \<Longrightarrow> 0 \<le> Gap cfg \<Longrightarrow>
   inInt64 (mW bin + Gap cfg) \<Longrightarrow> inInt64 (mH bin + Gap cfg) \<Longrightarrow>
   \<forall>im \<in> set ims. inInt64 (iWidth im + 2 * Gap cfg) \<and> inInt64 (iHeight im + 2 * Gap cfg) \<Longrightarrow>
   list_all2 placedIn acc (mUsed bin) \<Longrightarrow>
   \<exists>bin'. binInv bin' \<and> mW bin' = mW bin \<and> mH bin' = mH bin \<and>
          list_all2 placedIn ps (mUsed bin')"
proof (induction ims arbitrary: bin acc)
  case Nil
  then show ?case by auto
next
  case (Cons im ims)
  let ?pw = "iWidth im + 2 * Gap cfg"
  let ?ph = "iHeight im + 2 * Gap cfg"
  have pw: "padded (iWidth im) (Gap cfg) = ?pw" and ph: "padded (iHeight im) (Gap cfg) = ?ph"
    using Cons.prems(6) by (simp_all add: padded_id)
  obtain rect ok bin1 where ins: "Insert bin ?pw ?ph rule = ((rect, ok), bin1)"
    by (cases "Insert bin ?pw ?ph rule") auto
  let ?p = "\<lparr>pName = iName im, pX = w64 (rX rect + Gap cfg), pY = w64 (rY rect + Gap cfg),
             pWidth = iWidth im, pHeight = iHeight im, pRotated = rRotated rect\<rparr>"
  from Cons.prems(1) ins have ok: "ok"
    and rest: "pack_loop cfg rule w h bin1 ims (acc @ [?p]) = Inr ps"
    by (auto simp: Let_def pw ph split: if_splits)
  from Insert_success [OF ins [unfolded eqTrueI [OF ok]] Cons.prems(2)]
  have inv1: "binInv bin1" and used1: "mUsed bin1 = mUsed bin @ [rect]"
    and dims: "mW bin1 = mW bin" "mH bin1 = mH bin"
    and shape: "(rW rect = ?pw \<and> rH rect = ?ph \<and> \<not> rRotated rect) \<or>
                (rW rect = ?ph \<and> rH rect = ?pw \<and> rRotated rect)"
    and corner: "0 \<le> rX rect" "rX rect \<le> mW bin" "0 \<le> rY rect" "rY rect \<le> mH bin"
    by simp_all
  have "inInt64 (rX rect + Gap cfg)" and "inInt64 (rY rect + Gap cfg)"
    using corner Cons.prems(3,4,5) by (simp_all add: inInt64_def)
  then have x: "w64 (rX rect + Gap cfg) = rX rect + Gap cfg"
    and y: "w64 (rY rect + Gap cfg) = rY rect + Gap cfg"
    by (simp_all add: w64_id)
  have "placedIn ?p rect"
    unfolding x y using shape Cons.prems(3) by (auto simp: placedIn_def placedW_def placedH_def)
  then have l: "list_all2 placedIn (acc @ [?p]) (mUsed bin1)"
    unfolding used1 using Cons.prems(7) by (simp add: list_all2_appendI)
  have r: "\<forall>im \<in> set ims. inInt64 (iWidth im + 2 * Gap cfg) \<and> inInt64 (iHeight im + 2 * Gap cfg)"
    using Cons.prems(6) by simp
  from Cons.IH [OF rest inv1 Cons.prems(3) _ _ r l] Cons.prems(4,5) dims show ?case by auto
qed

text \<open>The size search starts at \<open>MinSize\<close> or above, and only doubles.\<close>

lemma startSize_ge: "MinSize cfg \<le> startSize images cfg"
proof -
  obtain minW minH where mp: "maxPadded images cfg (0, 0) = (minW, minH)"
    by (cases "maxPadded images cfg (0, 0)") auto
  let ?s1 = "if minW > MinSize cfg then nextPowerOfTwo minW else MinSize cfg"
  have s1: "MinSize cfg \<le> ?s1"
    using nextPowerOfTwo_pow2 [of minW] by auto
  let ?s2 = "if minH > ?s1 then nextPowerOfTwo minH else ?s1"
  have s2: "MinSize cfg \<le> ?s2"
  proof (cases "minH > ?s1")
    case True
    then show ?thesis using s1 nextPowerOfTwo_pow2 [of minH] by auto
  next
    case False
    then show ?thesis using s1 by presburger
  qed
  have "startSize images cfg = ?s2" by (simp add: startSize_def mp Let_def)
  then show ?thesis using s2 by simp
qed

lemma findOptimalSize_pos:
  assumes fo: "findOptimalSize ops images cfg = Some (w, h)" and m: "0 < MinSize cfg"
  shows "0 < w \<and> 0 < h"
proof -
  let ?size = "startSize images cfg"
  have sp: "0 < ?size" using startSize_ge [of cfg images] m by simp
  have el: "\<And>ss x. size_steps ?size (MaxSize cfg) = Some ss \<Longrightarrow> x \<in> set ss \<Longrightarrow> 0 < x"
  proof -
    fix ss x assume "size_steps ?size (MaxSize cfg) = Some ss" and "x \<in> set ss"
    from size_steps_elems [OF this] obtain j :: nat where "x = ?size * 2 ^ j" by blast
    then show "0 < x" using sp by simp
  qed
  from findOptimalSize_result [OF fo] show ?thesis
    using sp el by auto
qed

text \<open>
  Claim C1, amended. When \<open>Pack\<close> succeeds on inputs whose padding cannot wrap, every
  placement lies within the atlas (\<open>0 \<le> x\<close>, \<open>0 \<le> y\<close>, \<open>x + w \<le> W\<close>,
  \<open>y + h \<le> H\<close>, sides swapped when rotated) and no two distinct placements overlap.
  It holds for every floating-point arithmetic handed to \<open>Pack\<close> and for every sort
  that returns entries of the slice it was given.
\<close>

theorem Pack_placements_in_atlas_disjoint:
  assumes ok: "Pack srt ops images cfg = Some (Inr res)"
    and fits: "noOverflow cfg images"
    and perm: "set (sortImagesForPacking srt images cfg) \<subseteq> set images"
  shows "(\<forall>p \<in> set (resPlacements res). inAtlas (resWidth res) (resHeight res) p) \<and>
         (\<forall>i < length (resPlacements res). \<forall>j < length (resPlacements res).
            i \<noteq> j \<longrightarrow> \<not> overlaps (resPlacements res ! i) (resPlacements res ! j))"
proof (cases "length images = 0")
  case True
  then show ?thesis using ok
    by (auto simp: Pack_def split: option.splits)
next
  case False
  let ?imgs = "sortImagesForPacking srt images cfg"
  from ok False obtain w h ps where
    valid: "validateConfig cfg = None"
    and fo: "findOptimalSize ops ?imgs cfg = Some (w, h)"
    and wm: "w \<le> MaxSize cfg" and hm: "h \<le> MaxSize cfg"
    and run: "pack_loop cfg (normRule (Rule cfg)) w h (newMaxRects w h (AllowRotate cfg)) ?imgs [] = Inr ps"
    and res: "res = \<lparr>resWidth = w, resHeight = h, resPlacements = ps\<rparr>"
    by (auto simp: Pack_def Let_def split: option.splits if_splits sum.splits)
  have gap: "0 \<le> Gap cfg" and minpos: "0 < MinSize cfg"
    using valid by (auto simp: validateConfig_def split: if_splits)
  from findOptimalSize_pos [OF fo minpos] have wp: "0 < w" and hp: "0 < h" by simp_all
  have inv0: "binInv (newMaxRects w h (AllowRotate cfg))"
    using wp hp by (simp add: binInv_def newMaxRects_def inBin_def)
  have gw: "inInt64 (mW (newMaxRects w h (AllowRotate cfg)) + Gap cfg)"
    and gh: "inInt64 (mH (newMaxRects w h (AllowRotate cfg)) + Gap cfg)"
    using fits wm hm wp hp gap by (simp_all add: noOverflow_def newMaxRects_def inInt64_def)
  have pads: "\<forall>im \<in> set ?imgs. inInt64 (iWidth im + 2 * Gap cfg) \<and> inInt64 (iHeight im + 2 * Gap cfg)"
    using fits perm by (auto simp: noOverflow_def list_all_iff)
  have "list_all2 placedIn [] (mUsed (newMaxRects w h (AllowRotate cfg)))"
    by (simp add: newMaxRects_def)
  from pack_loop_placed [OF run inv0 gap gw gh pads this]
  obtain bin where inv: "binInv bin" and W: "mW bin = w" and H: "mH bin = h"
    and pl: "list_all2 placedIn ps (mUsed bin)"
    by (auto simp: newMaxRects_def)
  have len: "length ps = length (mUsed bin)" using pl by (rule list_all2_lengthD)
  have nth: "\<And>k. k < length ps \<Longrightarrow> placedIn (ps ! k) (mUsed bin ! k)"
    using pl by (simp add: list_all2_nthD)
  have a: "\<forall>p \<in> set ps. inAtlas w h p"
  proof
    fix p assume "p \<in> set ps"
    then obtain k where k: "k < length ps" and p: "p = ps ! k"
      by (auto simp: in_set_conv_nth)
    have "inBin w h (mUsed bin ! k)"
      using inv k len W H by (simp add: binInv_def)
    with nth [OF k] show "inAtlas w h p" unfolding p by (rule placedIn_inAtlas)
  qed
  have b: "\<forall>i < length ps. \<forall>j < length ps. i \<noteq> j \<longrightarrow> \<not> overlaps (ps ! i) (ps ! j)"
  proof (intro allI impI)
    fix i j assume i: "i < length ps" and j: "j < length ps" and ne: "i \<noteq> j"
    have "misses (mUsed bin ! i) (mUsed bin ! j)"
      using inv i j ne len by (simp add: binInv_def)
    with nth [OF i] nth [OF j] show "\<not> overlaps (ps ! i) (ps ! j)"
      by (rule placedIn_overlaps)
  qed
  show ?thesis using a b by (simp add: res)
qed

theorem Pack_placements_in_atlas_disjoint_witness:
  "Pack insertionSort exact_ops demo_images demo_cfg = Some (Inr demo_result) \<and>
   noOverflow demo_cfg demo_images \<and>
   set (sortImagesForPacking insertionSort demo_images demo_cfg) \<subseteq> set demo_images \<and>
   inAtlas 32 32 (resPlacements demo_result ! 0) \<and>
   inAtlas 32 32 (resPlacements demo_result ! 1) \<and>
   \<not> overlaps (resPlacements demo_result ! 0) (resPlacements demo_result ! 1)"
proof -
  have f: "noOverflow demo_cfg demo_images"
    by (simp add: noOverflow_def demo_cfg_def demo_images_def inInt64_def)
  have "sortImagesForPacking insertionSort demo_images demo_cfg = rev demo_images"
    by code_simp
  then have s: "set (sortImagesForPacking insertionSort demo_images demo_cfg) \<subseteq> set demo_images"
    by simp
  note t = Pack_placements_in_atlas_disjoint [OF Pack_demo f s]
  have w: "resWidth demo_result = 32" and h: "resHeight demo_result = 32"
    and l: "length (resPlacements demo_result) = 2"
    by (simp_all add: demo_result_def)
  have a: "\<forall>p \<in> set (resPlacements demo_result). inAtlas 32 32 p"
    using t unfolding w h by blast
  have "resPlacements demo_result ! 0 \<in> set (resPlacements demo_result)"
    and "resPlacements demo_result ! 1 \<in> set (resPlacements demo_result)"
    using l by simp_all
  with a have a0: "inAtlas 32 32 (resPlacements demo_result ! 0)"
    and a1: "inAtlas 32 32 (resPlacements demo_result ! 1)" by blast+
  have "\<not> overlaps (resPlacements demo_result ! 0) (resPlacements demo_result ! 1)"
    using t l by simp
  then show ?thesis using Pack_demo f s a0 a1 by simp
qed

text \<open>
  The claim as first stated covers every configuration that \<open>validateConfig\<close> lets
  through, and \<open>validateConfig\<close> puts no upper bound on the gap. With a gap of \<open>2^62\<close>
  the product \<open>2*cfg.Gap\<close> wraps to \<open>-2^63\<close>, the padded sides are negative, every
  image is inserted at the origin of a free rectangle that is never split, and both
  placements land at \<open>x = y = 2^62\<close>: outside the 32 by 32 atlas, and on top of each
  other.
\<close>

definition wrap_cfg :: "rat Config" where
  "wrap_cfg =
     \<lparr>MinSize = 32, MaxSize = 64, Gap = 4611686018427387904, AspectPenalty = 0,
      Rule = BottomLeft, PreferHeight = False, ForceSquare = False, AllowRotate = False\<rparr>"

definition wrap_images :: "ImageInfo list" where
  "wrap_images =
     [\<lparr>iName = ''a'', iWidth = 10, iHeight = 10\<rparr>, \<lparr>iName = ''b'', iWidth = 10, iHeight = 10\<rparr>]"

definition wrap_result :: Result where
  "wrap_result =
     \<lparr>resWidth = 32, resHeight = 32,
      resPlacements =
        [\<lparr>pName = ''a'', pX = 4611686018427387904, pY = 4611686018427387904,
          pWidth = 10, pHeight = 10, pRotated = False\<rparr>,
         \<lparr>pName = ''b'', pX = 4611686018427387904, pY = 4611686018427387904,
          pWidth = 10, pHeight = 10, pRotated = False\<rparr>]\<rparr>"

theorem Pack_placements_counterexample:
  "validateConfig wrap_cfg = None \<and>
   Pack insertionSort exact_ops wrap_images wrap_cfg = Some (Inr wrap_result) \<and>
   \<not> inAtlas (resWidth wrap_result) (resHeight wrap_result) (resPlacements wrap_result ! 0) \<and>
   overlaps (resPlacements wrap_result ! 0) (resPlacements wrap_result ! 1)"
proof -
  have "Pack insertionSort exact_ops wrap_images wrap_cfg = Some (Inr wrap_result)"
    by code_simp
  moreover have "validateConfig wrap_cfg = None"
    by (simp add: validateConfig_def wrap_cfg_def)
  ultimately show ?thesis
    by (simp add: wrap_result_def inAtlas_def overlaps_def placedW_def placedH_def)
qed

subsection \<open>A failed Insert\<close>

text \<open>
  Claim C9. If \<open>Insert\<close> returns failure, the bin is what it was before the call: the
  free-rectangle list and the used-rectangle list are unchanged.
\<close>

theorem Insert_failure_unchanged:
  assumes "Insert m w h rule = ((r, False), m')"
  shows "m' = m \<and> mFree m' = mFree m \<and> mUsed m' = mUsed m"
  using assms by (auto simp: Insert_def split: prod.splits if_splits)

theorem Insert_failure_unchanged_witness:
  "fst (Insert (newMaxRects 4 4 False) 5 5 BestShortSideFit) = (zeroRect, False) \<and>
   mFree (snd (Insert (newMaxRects 4 4 False) 5 5 BestShortSideFit))
     = [\<lparr>rX = 0, rY = 0, rW = 4, rH = 4, rRotated = False\<rparr>] \<and>
   mUsed (snd (Insert (newMaxRects 4 4 False) 5 5 BestShortSideFit)) = []"
proof -
  let ?m = "newMaxRects 4 4 False"
  have f: "fst (Insert ?m 5 5 BestShortSideFit) = (zeroRect, False)"
    by (simp add: Insert_def newMaxRects_def scan_step_def)
  then have "Insert ?m 5 5 BestShortSideFit = ((zeroRect, False), snd (Insert ?m 5 5 BestShortSideFit))"
    by (simp add: prod_eq_iff)
  from Insert_failure_unchanged [OF this] f show ?thesis
    by (simp add: newMaxRects_def)
qed

subsection \<open>The order of the inputs\<close>

text \<open>
  The four keys of the input sort, in the words of the specification: the longest side,
  the area, the height and the width, each of the image padded by the gap on both sides.
  They are exact integers, and tuples are compared lexicographically.
\<close>

definition packKey :: "'f Config \<Rightarrow> ImageInfo \<Rightarrow> int \<times> int \<times> int \<times> int" where
  "packKey cfg im =
     (max (iWidth im + 2 * Gap cfg) (iHeight im + 2 * Gap cfg),
      (iWidth im + 2 * Gap cfg) * (iHeight im + 2 * Gap cfg),
      iHeight im + 2 * Gap cfg,
      iWidth im + 2 * Gap cfg)"

text \<open>The padded sides and the padded area of an image are \<open>int\<close> values.\<close>

definition keyFits :: "'f Config \<Rightarrow> ImageInfo \<Rightarrow> bool" where
  "keyFits cfg im \<longleftrightarrow>
     inInt64 (iWidth im + 2 * Gap cfg) \<and> inInt64 (iHeight im + 2 * Gap cfg) \<and>
     inInt64 ((iWidth im + 2 * Gap cfg) * (iHeight im + 2 * Gap cfg))"

lemma key_less_iff:
  fixes a b c d :: int
  shows "(a, b, c, d) < (a', b', c', d') \<longleftrightarrow>
         a < a' \<or> (a = a' \<and> (b < b' \<or> (b = b' \<and> (c < c' \<or> (c = c' \<and> d < d')))))"
  by (auto simp: less_prod_def)

text \<open>
  On such images the comparison of the code is the strict lexicographic order on the
  keys, descending.
\<close>

lemma lessForPacking_key:
  assumes "keyFits cfg a" and "keyFits cfg b"
  shows "lessForPacking cfg a b \<longleftrightarrow> packKey cfg b < packKey cfg a"
proof -
  have p: "padded (iWidth a) (Gap cfg) = iWidth a + 2 * Gap cfg"
    "padded (iHeight a) (Gap cfg) = iHeight a + 2 * Gap cfg"
    "padded (iWidth b) (Gap cfg) = iWidth b + 2 * Gap cfg"
    "padded (iHeight b) (Gap cfg) = iHeight b + 2 * Gap cfg"
    using assms by (simp_all add: keyFits_def padded_id)
  have q: "w64 ((iWidth a + 2 * Gap cfg) * (iHeight a + 2 * Gap cfg))
             = (iWidth a + 2 * Gap cfg) * (iHeight a + 2 * Gap cfg)"
    "w64 ((iWidth b + 2 * Gap cfg) * (iHeight b + 2 * Gap cfg))
             = (iWidth b + 2 * Gap cfg) * (iHeight b + 2 * Gap cfg)"
    using assms by (simp_all add: keyFits_def w64_id)
  show ?thesis
    unfolding lessForPacking_def packKey_def Let_def key_less_iff p q
    by (auto simp: max_def)
qed

text \<open>
  What \<open>sort.Slice\<close> promises of its result \<open>ys\<close> on the slice \<open>xs\<close>: the same entries,
  none of them less than an entry before it. Its documentation adds that the sort is not
  guaranteed to be stable.
\<close>

definition sliceSorted :: "('a \<Rightarrow> 'a \<Rightarrow> bool) \<Rightarrow> 'a list \<Rightarrow> 'a list \<Rightarrow> bool" where
  "sliceSorted lt xs ys \<longleftrightarrow> mset ys = mset xs \<and> sorted_wrt (\<lambda>a b. \<not> lt b a) ys"

text \<open>A sort is stable for a key when entries of equal key keep their relative order.\<close>

definition stableFor :: "('a \<Rightarrow> 'k) \<Rightarrow> 'a list \<Rightarrow> 'a list \<Rightarrow> bool" where
  "stableFor key xs ys \<longleftrightarrow> (\<forall>k. filter (\<lambda>x. key x = k) ys = filter (\<lambda>x. key x = k) xs)"

text \<open>
  Claim C7, amended. When no padded side and no padded area of an input overflows, and
  the sort keeps the promise of \<open>sort.Slice\<close>, the sorted inputs are the given inputs
  ordered by longest padded side descending, then padded area descending, then padded
  height descending, then padded width descending. Nothing is said of the relative
  order of entries equal under all four keys.
\<close>

theorem sortImagesForPacking_ordered:
  assumes srt: "sliceSorted (lessForPacking cfg) images (srt (lessForPacking cfg) images)"
    and fit: "list_all (keyFits cfg) images"
  shows "mset (sortImagesForPacking srt images cfg) = mset images \<and>
         sorted_wrt (\<lambda>a b. packKey cfg b \<le> packKey cfg a) (sortImagesForPacking srt images cfg)"
proof -
  let ?ys = "srt (lessForPacking cfg) images"
  have m: "mset ?ys = mset images" and s: "sorted_wrt (\<lambda>a b. \<not> lessForPacking cfg b a) ?ys"
    using srt by (simp_all add: sliceSorted_def)
  have "set ?ys = set images" using m by (rule mset_eq_setD)
  then have f: "\<And>x. x \<in> set ?ys \<Longrightarrow> keyFits cfg x"
    using fit by (simp add: list_all_iff)
  have "sorted_wrt (\<lambda>a b. packKey cfg b \<le> packKey cfg a) ?ys"
  proof (rule sorted_wrt_mono_rel [OF _ s])
    fix a b assume "a \<in> set ?ys" and "b \<in> set ?ys" and "\<not> lessForPacking cfg b a"
    then show "packKey cfg b \<le> packKey cfg a"
      using lessForPacking_key [of cfg b a] f by auto
  qed
  then show ?thesis using m by (simp add: sortImagesForPacking_def)
qed

definition sort_images :: "ImageInfo list" where
  "sort_images =
     [\<lparr>iName = ''b'', iWidth = 8, iHeight = 8\<rparr>, \<lparr>iName = ''c'', iWidth = 10, iHeight = 1\<rparr>,
      \<lparr>iName = ''e'', iWidth = 9, iHeight = 2\<rparr>, \<lparr>iName = ''a'', iWidth = 10, iHeight = 2\<rparr>]"

definition sorted_images :: "ImageInfo list" where
  "sorted_images =
     [\<lparr>iName = ''a'', iWidth = 10, iHeight = 2\<rparr>, \<lparr>iName = ''c'', iWidth = 10, iHeight = 1\<rparr>,
      \<lparr>iName = ''e'', iWidth = 9, iHeight = 2\<rparr>, \<lparr>iName = ''b'', iWidth = 8, iHeight = 8\<rparr>]"

theorem sortImagesForPacking_ordered_witness:
  "sliceSorted (lessForPacking demo_cfg) sort_images (insertionSort (lessForPacking demo_cfg) sort_images) \<and>
   list_all (keyFits demo_cfg) sort_images \<and>
   sortImagesForPacking insertionSort sort_images demo_cfg = sorted_images \<and>
   sorted_wrt (\<lambda>a b. packKey demo_cfg b \<le> packKey demo_cfg a) sorted_images"
proof -
  have n: "sortImagesForPacking insertionSort sort_images demo_cfg = sorted_images"
    by code_simp
  then have i: "insertionSort (lessForPacking demo_cfg) sort_images = sorted_images"
    by (simp add: sortImagesForPacking_def)
  have m: "mset sorted_images = mset sort_images"
    by (simp add: sorted_images_def sort_images_def)
  have s: "sorted_wrt (\<lambda>a b. \<not> lessForPacking demo_cfg b a) sorted_images"
    by code_simp
  have c: "sliceSorted (lessForPacking demo_cfg) sort_images
             (insertionSort (lessForPacking demo_cfg) sort_images)"
    unfolding i sliceSorted_def using m s by simp
  have f: "list_all (keyFits demo_cfg) sort_images"
    by (simp add: sort_images_def keyFits_def inInt64_def demo_cfg_def)
  from sortImagesForPacking_ordered [of demo_cfg sort_images insertionSort, OF c f] c f n
  show ?thesis by simp
qed

text \<open>
  The claim as first stated asks for stability, for every input. The code calls
  \<open>sort.Slice\<close>, not \<open>sort.SliceStable\<close>. Up to 12 entries that is an insertion sort,
  which leaves entries of equal keys in their order; from 13 entries on it is not. Here
  twelve 4 by 4 images are followed by an 8 by 8 one: the pivot is the seventh entry
  \<open>g\<close>, which \<open>partition_func\<close> moves to the front, the large image changes places
  with \<open>b\<close>, and the eleven entries after the pivot are left as they are.
\<close>

definition thirteen_images :: "ImageInfo list" where
  "thirteen_images =
     map (\<lambda>n. \<lparr>iName = n, iWidth = 4, iHeight = 4\<rparr>)
       [''a'', ''b'', ''c'', ''d'', ''e'', ''f'', ''g'', ''h'', ''i'', ''j'', ''k'', ''l''] @
     [\<lparr>iName = ''big'', iWidth = 8, iHeight = 8\<rparr>]"

definition shuffled_images :: "ImageInfo list" where
  "shuffled_images =
     \<lparr>iName = ''big'', iWidth = 8, iHeight = 8\<rparr> #
     map (\<lambda>n. \<lparr>iName = n, iWidth = 4, iHeight = 4\<rparr>)
       [''g'', ''c'', ''d'', ''e'', ''f'', ''a'', ''h'', ''i'', ''j'', ''k'', ''l'', ''b'']"

text \<open>
  The claim also takes the keys to be those of the padded sides. With a gap of
  1518500249 the padded area of a 2 by 2 image, \<open>3037000500^2\<close>, is more than \<open>2^63\<close>
  and wraps to a negative number, so that a 2 by 1 image, whose padded area is smaller,
  is put before it.
\<close>

definition huge_gap_cfg :: "rat Config" where
  "huge_gap_cfg =
     \<lparr>MinSize = 32, MaxSize = 32, Gap = 1518500249, AspectPenalty = 0, Rule = BottomLeft,
      PreferHeight = False, ForceSquare = False, AllowRotate = False\<rparr>"

definition square_image :: ImageInfo where
  "square_image = \<lparr>iName = ''square'', iWidth = 2, iHeight = 2\<rparr>"

definition flat_image :: ImageInfo where
  "flat_image = \<lparr>iName = ''flat'', iWidth = 2, iHeight = 1\<rparr>"

theorem sortImagesForPacking_counterexample:
  "sort_Slice (lessForPacking demo_cfg) thirteen_images = Some shuffled_images \<and>
   sortImagesForPacking (\<lambda>lt xs. the (sort_Slice lt xs)) thirteen_images demo_cfg = shuffled_images \<and>
   list_all (keyFits demo_cfg) thirteen_images \<and>
   \<not> stableFor (packKey demo_cfg) thirteen_images shuffled_images \<and>
   validateConfig huge_gap_cfg = None \<and>
   sortImagesForPacking insertionSort [square_image, flat_image] huge_gap_cfg
     = [flat_image, square_image] \<and>
   packKey huge_gap_cfg flat_image < packKey huge_gap_cfg square_image"
proof -
  have r: "sort_Slice (lessForPacking demo_cfg) thirteen_images = Some shuffled_images"
    by code_simp
  then have t: "sortImagesForPacking (\<lambda>lt xs. the (sort_Slice lt xs)) thirteen_images demo_cfg
                  = shuffled_images"
    by (simp add: sortImagesForPacking_def)
  have f: "list_all (keyFits demo_cfg) thirteen_images"
    by (simp add: thirteen_images_def keyFits_def inInt64_def demo_cfg_def)
  have "filter (\<lambda>x. packKey demo_cfg x = (6, 36, 6, 6)) shuffled_images
          \<noteq> filter (\<lambda>x. packKey demo_cfg x = (6, 36, 6, 6)) thirteen_images"
    by (simp add: thirteen_images_def shuffled_images_def packKey_def demo_cfg_def)
  then have u: "\<not> stableFor (packKey demo_cfg) thirteen_images shuffled_images"
    unfolding stableFor_def by blast
  have v: "validateConfig huge_gap_cfg = None"
    by (simp add: validateConfig_def huge_gap_cfg_def)
  have w: "sortImagesForPacking insertionSort [square_image, flat_image] huge_gap_cfg
             = [flat_image, square_image]"
    by code_simp
  have k: "packKey huge_gap_cfg flat_image < packKey huge_gap_cfg square_image"
    by (simp add: packKey_def huge_gap_cfg_def flat_image_def square_image_def key_less_iff)
  show ?thesis using r t f u v w k by simp
qed

section \<open>DDS header (internal/dds)\<close>

type_synonym byte = "8 word"
type_synonym u32 = "32 word"

subsection \<open>Constants and types\<close>

definition Magic :: "byte list" where
  "Magic = [0x44, 0x44, 0x53, 0x20]"

definition HeaderSize :: u32 where "HeaderSize = 124"
definition PixelFormatSize :: u32 where "PixelFormatSize = 32"

definition DCaps :: u32 where "DCaps = 0x1"
definition DHeight :: u32 where "DHeight = 0x2"
definition DWidth :: u32 where "DWidth = 0x4"
definition DPitch :: u32 where "DPitch = 0x8"
definition DPixelFormat :: u32 where "DPixelFormat = 0x1000"
definition DMipMapCount :: u32 where "DMipMapCount = 0x20000"

definition PFAlphaPixels :: u32 where "PFAlphaPixels = 0x1"
definition PFRGB :: u32 where "PFRGB = 0x40"

definition CapsComplex :: u32 where "CapsComplex = 0x8"
definition CapsTexture :: u32 where "CapsTexture = 0x1000"
definition CapsMipMap :: u32 where "CapsMipMap = 0x400000"

definition HeaderFlagsTexture :: u32 where
  "HeaderFlagsTexture = DCaps OR DHeight OR DWidth OR DPixelFormat"
definition HeaderFlagsMipMap :: u32 where "HeaderFlagsMipMap = DMipMapCount"
definition HeaderFlagsPitch :: u32 where "HeaderFlagsPitch = DPitch"

record PixelFormat =
  pfSize :: u32
  pfFlags :: u32
  pfFourCC :: u32
  pfRGBBitCount :: u32
  pfRBitMask :: u32
  pfGBitMask :: u32
  pfBBitMask :: u32
  pfABitMask :: u32

text \<open>\<open>Reserved1\<close> is \<open>[11]uint32\<close>: a list of eleven words.\<close>

record Header =
  hSize :: u32
  hFlags :: u32
  hHeight :: u32
  hWidth :: u32
  hPitchOrLinearSize :: u32
  hDepth :: u32
  hMipMapCount :: u32
  hReserved1 :: "u32 list"
  hPixelFormat :: PixelFormat
  hCaps :: u32
  hCaps2 :: u32
  hCaps3 :: u32
  hCaps4 :: u32
  hReserved2 :: u32

text \<open>\<open>var h Header\<close>: every field zero.\<close>

definition zeroHeader :: Header where
  "zeroHeader =
     \<lparr>hSize = 0, hFlags = 0, hHeight = 0, hWidth = 0, hPitchOrLinearSize = 0, hDepth = 0,
      hMipMapCount = 0, hReserved1 = replicate 11 0,
      hPixelFormat = \<lparr>pfSize = 0, pfFlags = 0, pfFourCC = 0, pfRGBBitCount = 0, pfRBitMask = 0,
                       pfGBitMask = 0, pfBBitMask = 0, pfABitMask = 0\<rparr>,
      hCaps = 0, hCaps2 = 0, hCaps3 = 0, hCaps4 = 0, hReserved2 = 0\<rparr>"

subsection \<open>Reading\<close>

text \<open>
  The reader is the list of the bytes it still holds. \<open>io.ReadFull\<close> fails with
  \<open>io.EOF\<close> on an empty reader and with \<open>io.ErrUnexpectedEOF\<close> on a short one.
\<close>

datatype io_error = EOF | ErrUnexpectedEOF

datatype dds_error =
  Reading string io_error
  | InvalidMagic "byte list"
  | InvalidHeaderSize u32
  | InvalidPixelFormatSize u32
  | Reserved2NotZero
  | RequiredFlagsNotSet u32

definition ReadFull :: "nat \<Rightarrow> byte list \<Rightarrow> io_error + byte list \<times> byte list" where
  "ReadFull n r =
     (if n \<le> length r then Inr (take n r, drop n r)
      else if r = [] then Inl EOF else Inl ErrUnexpectedEOF)"

text \<open>\<open>binary.LittleEndian.Uint32\<close> on four bytes.\<close>

definition Uint32 :: "byte list \<Rightarrow> u32" where
  "Uint32 b =
     ucast (b ! 0) OR push_bit 8 (ucast (b ! 1)) OR push_bit 16 (ucast (b ! 2))
       OR push_bit 24 (ucast (b ! 3))"

definition readDWORD :: "byte list \<Rightarrow> io_error + u32 \<times> byte list" where
  "readDWORD r =
     (case ReadFull 4 r of Inl e \<Rightarrow> Inl e | Inr (buf, r') \<Rightarrow> Inr (Uint32 buf, r'))"

text \<open>A read whose failure is wrapped with the name of the field, and sequencing.\<close>

definition field :: "string \<Rightarrow> byte list \<Rightarrow> dds_error + u32 \<times> byte list" where
  "field name r = (case readDWORD r of Inl e \<Rightarrow> Inl (Reading name e) | Inr vr \<Rightarrow> Inr vr)"

definition andThen :: "'e + 'a \<Rightarrow> ('a \<Rightarrow> 'e + 'b) \<Rightarrow> 'e + 'b" where
  "andThen m f = (case m of Inl e \<Rightarrow> Inl e | Inr a \<Rightarrow> f a)"

text \<open>
  \<open>ReadHeader\<close> in the three stretches of its body: from the magic to \<open>MipMapCount\<close>,
  the loop over \<open>Reserved1\<close>, and from the pixel format to the final checks. Each returns
  the header so far and the reader.
\<close>

definition readHeaderStart :: "byte list \<Rightarrow> dds_error + Header \<times> byte list" where
  "readHeaderStart r0 =
     (case ReadFull 4 r0 of
        Inl e \<Rightarrow> Inl (Reading ''magic'' e)
      | Inr (magic, r1) \<Rightarrow>
          if magic \<noteq> Magic then Inl (InvalidMagic magic)
          else
            andThen (field ''header size'' r1) (\<lambda>(size, r2).
            if size \<noteq> HeaderSize then Inl (InvalidHeaderSize size)
            else
              andThen (field ''flags'' r2) (\<lambda>(flags, r3).
              andThen (field ''height'' r3) (\<lambda>(height, r4).
              andThen (field ''width'' r4) (\<lambda>(width, r5).
              andThen (field ''pitchOrLinearSize'' r5) (\<lambda>(pitch, r6).
              andThen (field ''depth'' r6) (\<lambda>(depth, r7).
              andThen (field ''mipMapCount'' r7) (\<lambda>(mips, r8).
                Inr (zeroHeader\<lparr>hSize := size, hFlags := flags, hHeight := height,
                       hWidth := width, hPitchOrLinearSize := pitch, hDepth := depth,
                       hMipMapCount := mips\<rparr>, r8)))))))))"

fun readReserved1 :: "nat \<Rightarrow> nat \<Rightarrow> Header \<Rightarrow> byte list \<Rightarrow> dds_error + Header \<times> byte list" where
  "readReserved1 0 i h r = Inr (h, r)"
| "readReserved1 (Suc n) i h r =
     andThen (field ''reserved1'' r) (\<lambda>(v, r').
       readReserved1 n (Suc i) (h\<lparr>hReserved1 := (hReserved1 h)[i := v]\<rparr>) r')"

definition readHeaderRest :: "Header \<Rightarrow> byte list \<Rightarrow> dds_error + Header \<times> byte list" where
  "readHeaderRest h r0 =
     andThen (field ''pixel format size'' r0) (\<lambda>(pfs, r1).
     if pfs \<noteq> PixelFormatSize then Inl (InvalidPixelFormatSize pfs)
     else
       andThen (field ''pixel format flags'' r1) (\<lambda>(pff, r2).
       andThen (field ''pixel format fourCC'' r2) (\<lambda>(fourcc, r3).
       andThen (field ''pixel format rgbBitCount'' r3) (\<lambda>(bits, r4).
       andThen (field ''pixel format rBitMask'' r4) (\<lambda>(rm, r5).
       andThen (field ''pixel format gBitMask'' r5) (\<lambda>(gm, r6).
       andThen (field ''pixel format bBitMask'' r6) (\<lambda>(bm, r7).
       andThen (field ''pixel format aBitMask'' r7) (\<lambda>(am, r8).
       andThen (field ''caps'' r8) (\<lambda>(caps, r9).
       andThen (field ''caps2'' r9) (\<lambda>(caps2, r10).
       andThen (field ''caps3'' r10) (\<lambda>(caps3, r11).
       andThen (field ''caps4'' r11) (\<lambda>(caps4, r12).
       andThen (field ''reserved2'' r12) (\<lambda>(res2, r13).
         if res2 \<noteq> 0 then Inl Reserved2NotZero
         else if hFlags h AND HeaderFlagsTexture \<noteq> HeaderFlagsTexture
           then Inl (RequiredFlagsNotSet (hFlags h))
         else
           Inr (h\<lparr>hPixelFormat :=
                     \<lparr>pfSize = pfs, pfFlags = pff, pfFourCC = fourcc, pfRGBBitCount = bits,
                      pfRBitMask = rm, pfGBitMask = gm, pfBBitMask = bm, pfABitMask = am\<rparr>,
                   hCaps := caps, hCaps2 := caps2, hCaps3 := caps3, hCaps4 := caps4,
                   hReserved2 := res2\<rparr>, r13))))))))))))))"

definition ReadHeader :: "byte list \<Rightarrow> dds_error + Header \<times> byte list" where
  "ReadHeader r =
     andThen (readHeaderStart r) (\<lambda>(h, r1).
     andThen (readReserved1 11 0 h r1) (\<lambda>(h', r2).
       readHeaderRest h' r2))"

definition accepts :: "byte list \<Rightarrow> bool" where
  "accepts bs = (case ReadHeader bs of Inl e \<Rightarrow> False | Inr hr \<Rightarrow> True)"

subsection \<open>Writing (format.go and the writer of read.go)\<close>

definition CreateHeaderRGBA8 :: "u32 \<Rightarrow> u32 \<Rightarrow> u32 \<Rightarrow> Header" where
  "CreateHeaderRGBA8 width height mipMapCount =
     (let flags0 = HeaderFlagsTexture;
          flags1 = (if mipMapCount > 0 then flags0 OR HeaderFlagsMipMap else flags0);
          flags = flags1 OR HeaderFlagsPitch;
          caps0 = CapsTexture;
          caps = (if mipMapCount > 0 then caps0 OR (CapsComplex OR CapsMipMap) else caps0)
      in \<lparr>hSize = HeaderSize, hFlags = flags, hHeight = height, hWidth = width,
          hPitchOrLinearSize = width * 4, hDepth = 0, hMipMapCount = mipMapCount,
          hReserved1 = [0, 0x31464e45, 0, 0, 0, 0, 0, 0, 0, 0, 0],
          hPixelFormat =
            \<lparr>pfSize = PixelFormatSize, pfFlags = PFAlphaPixels OR PFRGB, pfFourCC = 0,
             pfRGBBitCount = 32, pfRBitMask = 0x00ff0000, pfGBitMask = 0x0000ff00,
             pfBBitMask = 0x000000ff, pfABitMask = 0xff000000\<rparr>,
          hCaps = caps, hCaps2 = 0, hCaps3 = 0, hCaps4 = 0, hReserved2 = 0\<rparr>)"

text \<open>The writer is the list of the bytes written.\<close>

definition writeDWORD :: "u32 \<Rightarrow> byte list" where
  "writeDWORD v = [ucast v, ucast (drop_bit 8 v), ucast (drop_bit 16 v), ucast (drop_bit 24 v)]"

definition WriteHeader :: "Header \<Rightarrow> byte list" where
  "WriteHeader h =
     writeDWORD (hSize h) @ writeDWORD (hFlags h) @ writeDWORD (hHeight h) @
     writeDWORD (hWidth h) @ writeDWORD (hPitchOrLinearSize h) @ writeDWORD (hDepth h) @
     writeDWORD (hMipMapCount h) @
     concat (map (\<lambda>i. writeDWORD (hReserved1 h ! i)) [0 ..< 11]) @
     writeDWORD (pfSize (hPixelFormat h)) @ writeDWORD (pfFlags (hPixelFormat h)) @
     writeDWORD (pfFourCC (hPixelFormat h)) @ writeDWORD (pfRGBBitCount (hPixelFormat h)) @
     writeDWORD (pfRBitMask (hPixelFormat h)) @ writeDWORD (pfGBitMask (hPixelFormat h)) @
     writeDWORD (pfBBitMask (hPixelFormat h)) @ writeDWORD (pfABitMask (hPixelFormat h)) @
     writeDWORD (hCaps h) @ writeDWORD (hCaps2 h) @ writeDWORD (hCaps3 h) @
     writeDWORD (hCaps4 h) @ writeDWORD (hReserved2 h)"

subsection \<open>Acceptance of a header\<close>

lemma field_conv:
  "field name r = (if 4 \<le> length r then Inr (Uint32 (take 4 r), drop 4 r)
                   else Inl (Reading name (if r = [] then EOF else ErrUnexpectedEOF)))"
  by (simp add: field_def readDWORD_def ReadFull_def)

lemma isl_andThen_field:
  "isl (andThen (field name r) f) \<longleftrightarrow> length r < 4 \<or> isl (f (Uint32 (take 4 r), drop 4 r))"
  by (auto simp: field_conv andThen_def)

lemma isl_if_Inl: "isl (if c then Inl e else x) \<longleftrightarrow> c \<or> isl x"
  by simp

lemma andThen_field_Inr:
  "andThen (field name r) f = Inr x \<longleftrightarrow> 4 \<le> length r \<and> f (Uint32 (take 4 r), drop 4 r) = Inr x"
  by (auto simp: field_conv andThen_def)

lemma if_Inl_Inr: "(if c then Inl e else y) = Inr x \<longleftrightarrow> \<not> c \<and> y = Inr x"
  by simp

text \<open>The first 32 bytes decide the first stretch.\<close>

definition startOK :: "byte list \<Rightarrow> bool" where
  "startOK p \<longleftrightarrow> take 4 p = Magic \<and> Uint32 (take 4 (drop 4 p)) = HeaderSize"

definition startHeader :: "byte list \<Rightarrow> Header" where
  "startHeader p =
     zeroHeader\<lparr>hSize := Uint32 (take 4 (drop 4 p)), hFlags := Uint32 (take 4 (drop 8 p)),
       hHeight := Uint32 (take 4 (drop 12 p)), hWidth := Uint32 (take 4 (drop 16 p)),
       hPitchOrLinearSize := Uint32 (take 4 (drop 20 p)), hDepth := Uint32 (take 4 (drop 24 p)),
       hMipMapCount := Uint32 (take 4 (drop 28 p))\<rparr>"

lemma take_drop_prefix:
  "k + 4 \<le> 32 \<Longrightarrow> 32 \<le> length bs \<Longrightarrow> take 4 (drop k (take 32 bs)) = take 4 (drop k bs)"
  by (simp add: drop_take min_def)

lemma startHeader_take:
  "32 \<le> length bs \<Longrightarrow>
   startHeader (take 32 bs) =
     zeroHeader\<lparr>hSize := Uint32 (take 4 (drop 4 bs)), hFlags := Uint32 (take 4 (drop 8 bs)),
       hHeight := Uint32 (take 4 (drop 12 bs)), hWidth := Uint32 (take 4 (drop 16 bs)),
       hPitchOrLinearSize := Uint32 (take 4 (drop 20 bs)), hDepth := Uint32 (take 4 (drop 24 bs)),
       hMipMapCount := Uint32 (take 4 (drop 28 bs))\<rparr>"
  unfolding startHeader_def by (simp only: take_drop_prefix [of _ bs] numeral_le_iff add_numeral_left numeral_plus_numeral semiring_norm)

lemma startOK_take:
  "32 \<le> length bs \<Longrightarrow>
   startOK (take 32 bs) \<longleftrightarrow> take 4 bs = Magic \<and> Uint32 (take 4 (drop 4 bs)) = HeaderSize"
  unfolding startOK_def using take_drop_prefix [of 4 bs] by simp


lemma readHeaderStart_Inr:
  "readHeaderStart bs = Inr (h, r) \<longleftrightarrow>
   32 \<le> length bs \<and> startOK (take 32 bs) \<and> h = startHeader (take 32 bs) \<and> r = drop 32 bs"
proof (cases "4 \<le> length bs")
  case False
  then show ?thesis by (simp add: readHeaderStart_def ReadFull_def)
next
  case True
  let ?H = "zeroHeader\<lparr>hSize := Uint32 (take 4 (drop 4 bs)), hFlags := Uint32 (take 4 (drop 8 bs)),
              hHeight := Uint32 (take 4 (drop 12 bs)), hWidth := Uint32 (take 4 (drop 16 bs)),
              hPitchOrLinearSize := Uint32 (take 4 (drop 20 bs)),
              hDepth := Uint32 (take 4 (drop 24 bs)),
              hMipMapCount := Uint32 (take 4 (drop 28 bs))\<rparr>"
  have 1: "readHeaderStart bs = Inr (h, r) \<longleftrightarrow>
        take 4 bs = Magic \<and> 4 \<le> length bs - 4 \<and> Uint32 (take 4 (drop 4 bs)) = HeaderSize \<and>
        4 \<le> length bs - 8 \<and> 4 \<le> length bs - 12 \<and> 4 \<le> length bs - 16 \<and>
        4 \<le> length bs - 20 \<and> 4 \<le> length bs - 24 \<and> 4 \<le> length bs - 28 \<and>
        ?H = h \<and> drop 32 bs = r"
    using True
    by (simp add: readHeaderStart_def ReadFull_def andThen_field_Inr if_Inl_Inr
          del: if_split cong: if_weak_cong)
  show ?thesis
  proof (cases "32 \<le> length bs")
    case False
    then have "\<not> 4 \<le> length bs - 28" by simp
    then show ?thesis using False unfolding 1 by blast
  next
    case True
    have a: "4 \<le> length bs - 4" "4 \<le> length bs - 8" "4 \<le> length bs - 12"
      "4 \<le> length bs - 16" "4 \<le> length bs - 20" "4 \<le> length bs - 24" "4 \<le> length bs - 28"
      using True by simp_all
    show ?thesis
      unfolding 1 startHeader_take [OF True] startOK_take [OF True]
      using a True by blast
  qed
qed

lemma readReserved1_ok:
  "4 * n \<le> length r \<Longrightarrow>
   \<exists>h'. readReserved1 n i h r = Inr (h', drop (4 * n) r) \<and> hFlags h' = hFlags h"
proof (induction n arbitrary: i h r)
  case 0
  then show ?case by simp
next
  case (Suc n)
  then have "4 * n \<le> length (drop 4 r)" by simp
  from Suc.IH [OF this, of "Suc i" "h\<lparr>hReserved1 := (hReserved1 h)[i := Uint32 (take 4 r)]\<rparr>"]
  show ?case using Suc.prems by (auto simp: field_conv andThen_def add.commute)
qed

lemma readReserved1_short: "length r < 4 * n \<Longrightarrow> isl (readReserved1 n i h r)"
proof (induction n arbitrary: i h r)
  case 0
  then show ?case by simp
next
  case (Suc n)
  show ?case
  proof (cases "4 \<le> length r")
    case False
    then show ?thesis by (simp add: field_conv andThen_def)
  next
    case True
    have "length (drop 4 r) < 4 * n" using Suc.prems True by simp
    from Suc.IH [OF this] show ?thesis using True by (simp add: field_conv andThen_def)
  qed
qed

text \<open>Of the header read so far, the last stretch looks at \<open>Flags\<close> only.\<close>

lemma readHeaderRest_flags:
  "hFlags h = hFlags h' \<Longrightarrow> isl (readHeaderRest h r) = isl (readHeaderRest h' r)"
  by (simp add: readHeaderRest_def isl_andThen_field isl_if_Inl del: if_split cong: if_weak_cong)

lemma accepts_isl: "accepts bs \<longleftrightarrow> \<not> isl (ReadHeader bs)"
  by (simp add: accepts_def split: sum.splits)

lemma accepts_conv:
  "accepts bs \<longleftrightarrow>
   76 \<le> length bs \<and> startOK (take 32 bs) \<and>
   \<not> isl (readHeaderRest (startHeader (take 32 bs)) (drop 76 bs))"
proof (cases "readHeaderStart bs")
  case (Inl e)
  then have "\<not> (32 \<le> length bs \<and> startOK (take 32 bs))"
    using readHeaderStart_Inr [of bs "startHeader (take 32 bs)" "drop 32 bs"] by auto
  moreover have "\<not> accepts bs" using Inl by (simp add: accepts_isl ReadHeader_def andThen_def)
  ultimately show ?thesis by auto
next
  case (Inr hr)
  obtain h r where hr: "hr = (h, r)" by (cases hr) auto
  from Inr hr readHeaderStart_Inr [of bs h r]
  have len: "32 \<le> length bs" and ok: "startOK (take 32 bs)"
    and h: "h = startHeader (take 32 bs)" and r: "r = drop 32 bs" by simp_all
  show ?thesis
  proof (cases "4 * 11 \<le> length r")
    case True
    from readReserved1_ok [OF True, of 0 h] obtain h' where
      res: "readReserved1 11 0 h r = Inr (h', drop (4 * 11) r)" and fl: "hFlags h' = hFlags h"
      by blast
    have d: "drop (4 * 11) r = drop 76 bs" unfolding r by simp
    have "accepts bs \<longleftrightarrow> \<not> isl (readHeaderRest h' (drop 76 bs))"
      using Inr hr res d by (simp add: accepts_isl ReadHeader_def andThen_def)
    also have "\<dots> \<longleftrightarrow> \<not> isl (readHeaderRest h (drop 76 bs))"
      using readHeaderRest_flags [OF fl] by simp
    finally show ?thesis using True ok h r len by auto
  next
    case False
    then have "isl (readReserved1 11 0 h r)" by (intro readReserved1_short) simp
    then have "\<not> accepts bs"
      using Inr hr by (auto simp: accepts_isl ReadHeader_def andThen_def split: sum.splits)
    moreover have "\<not> 76 \<le> length bs" using False r by simp
    ultimately show ?thesis by simp
  qed
qed

text \<open>
  Claim C10. Two byte streams of one length that agree on bytes 0 to 31 and from byte 76
  on, that is everywhere but in the eleven \<open>Reserved1\<close> words, are both accepted by
  \<open>ReadHeader\<close> or both refused; and the canonical writer puts \<open>ENF1\<close>
  (\<open>0x31464E45\<close>) into \<open>Reserved1[1]\<close>.
\<close>

theorem ReadHeader_ignores_Reserved1:
  assumes "length bs = length bs'" and "take 32 bs = take 32 bs'" and "drop 76 bs = drop 76 bs'"
  shows "(accepts bs \<longleftrightarrow> accepts bs') \<and>
         hReserved1 (CreateHeaderRGBA8 width height mipMapCount) ! 1 = 0x31464E45"
  using assms by (simp add: accepts_conv CreateHeaderRGBA8_def Let_def)

text \<open>The header of the canonical writer, and the same bytes with the marker wiped.\<close>

definition enf_bytes :: "byte list" where
  "enf_bytes = Magic @ WriteHeader (CreateHeaderRGBA8 4 4 1)"

definition wiped_bytes :: "byte list" where
  "wiped_bytes = take 36 enf_bytes @ [0, 0, 0, 0] @ drop 40 enf_bytes"

theorem ReadHeader_ignores_Reserved1_witness:
  "take 4 (drop 36 enf_bytes) = [0x45, 0x4E, 0x46, 0x31] \<and>
   take 4 (drop 36 wiped_bytes) = [0, 0, 0, 0] \<and>
   accepts enf_bytes \<and> accepts wiped_bytes"
proof -
  have e: "take 4 (drop 36 enf_bytes) = [0x45, 0x4E, 0x46, 0x31]" by code_simp
  have w: "take 4 (drop 36 wiped_bytes) = [0, 0, 0, 0]" by code_simp
  have a: "accepts enf_bytes" by code_simp
  have l: "length enf_bytes = length wiped_bytes" by code_simp
  have t: "take 32 enf_bytes = take 32 wiped_bytes" by code_simp
  have d: "drop 76 enf_bytes = drop 76 wiped_bytes" by code_simp
  from ReadHeader_ignores_Reserved1 [OF l t d] a e w show ?thesis by simp
qed

section \<open>BC1 blocks (internal/bcn)\<close>

type_synonym u16 = "16 word"

record ColorRGBA =
  cR :: byte
  cG :: byte
  cB :: byte
  cA :: byte

subsection \<open>Pixel utilities (common.go)\<close>

definition to565 :: "ColorRGBA \<Rightarrow> u16" where
  "to565 c =
     push_bit 8 (ucast (cR c AND 0xF8)) OR push_bit 3 (ucast (cG c AND 0xFC))
       OR ucast (drop_bit 3 (cB c))"

definition from565 :: "u16 \<Rightarrow> ColorRGBA" where
  "from565 v =
     \<lparr>cR = ucast (drop_bit 8 v AND 0xF8), cG = ucast (drop_bit 3 v AND 0xFC),
      cB = ucast (push_bit 3 v AND 0xF8), cA = 255\<rparr>"

text \<open>
  \<open>luminance\<close> and \<open>sqrDistance\<close> compute in \<open>int32\<close>; their values stay below
  \<open>2^18\<close>, so \<open>int\<close> computes the same.
\<close>

definition luminance :: "ColorRGBA \<Rightarrow> int" where
  "luminance c = uint (cR c) + uint (cG c) * 2 + uint (cB c)"

definition sqrDistance :: "ColorRGBA \<Rightarrow> ColorRGBA \<Rightarrow> int" where
  "sqrDistance c other =
     (let dr = uint (cR c) - uint (cR other);
          dg = uint (cG c) - uint (cG other);
          db = uint (cB c) - uint (cB other)
      in dr * dr + dg * dg + db * db)"

text \<open>The mixes compute in \<open>uint16\<close>, where the sums stay below 766, and convert back.\<close>

definition mix21Over3 :: "byte \<Rightarrow> byte \<Rightarrow> byte" where
  "mix21Over3 x y = of_nat ((2 * unat x + unat y) div 3)"

definition mix12Over3 :: "byte \<Rightarrow> byte \<Rightarrow> byte" where
  "mix12Over3 x y = of_nat ((unat x + 2 * unat y) div 3)"

definition mix11Over2 :: "byte \<Rightarrow> byte \<Rightarrow> byte" where
  "mix11Over2 x y = of_nat ((unat x + unat y) div 2)"

definition mix21Over3Saturate :: "ColorRGBA \<Rightarrow> ColorRGBA \<Rightarrow> ColorRGBA" where
  "mix21Over3Saturate c other =
     \<lparr>cR = mix21Over3 (cR c) (cR other), cG = mix21Over3 (cG c) (cG other),
      cB = mix21Over3 (cB c) (cB other), cA = 255\<rparr>"

definition mix12Over3Saturate :: "ColorRGBA \<Rightarrow> ColorRGBA \<Rightarrow> ColorRGBA" where
  "mix12Over3Saturate c other =
     \<lparr>cR = mix12Over3 (cR c) (cR other), cG = mix12Over3 (cG c) (cG other),
      cB = mix12Over3 (cB c) (cB other), cA = 255\<rparr>"

definition mix11Over2Saturate :: "ColorRGBA \<Rightarrow> ColorRGBA \<Rightarrow> ColorRGBA" where
  "mix11Over2Saturate c other =
     \<lparr>cR = mix11Over2 (cR c) (cR other), cG = mix11Over2 (cG c) (cG other),
      cB = mix11Over2 (cB c) (cB other), cA = 255\<rparr>"

text \<open>
  A block is \<open>[16]ColorRGBA\<close>: a list of sixteen colours. The scan keeps
  \<open>(maxLum, minLum, maxColor, minColor)\<close>.
\<close>

fun minMax_scan ::
  "ColorRGBA list \<Rightarrow> int \<times> int \<times> ColorRGBA \<times> ColorRGBA \<Rightarrow> int \<times> int \<times> ColorRGBA \<times> ColorRGBA" where
  "minMax_scan [] st = st"
| "minMax_scan (p # ps) (maxLum, minLum, maxColor, minColor) =
     (let lum = luminance p;
          hi = (if lum > maxLum then (lum, p) else (maxLum, maxColor));
          lo = (if lum < minLum then (lum, p) else (minLum, minColor))
      in minMax_scan ps (fst hi, fst lo, snd hi, snd lo))"

definition minMaxLuminance :: "ColorRGBA list \<Rightarrow> ColorRGBA \<times> ColorRGBA" where
  "minMaxLuminance block =
     (case minMax_scan block (- 1, 0x7FFFFFFF, block ! 0, block ! 0) of
        (maxLum, minLum, maxColor, minColor) \<Rightarrow> (minColor, maxColor))"

text \<open>The inner loop of \<open>encodeColorTableBC1BC3\<close>, on \<open>(minDistance, bestIdx)\<close>.\<close>

fun closest_scan :: "ColorRGBA \<Rightarrow> ColorRGBA list \<Rightarrow> nat \<Rightarrow> int \<times> nat \<Rightarrow> int \<times> nat" where
  "closest_scan p [] j st = st"
| "closest_scan p (refColor # refs) j (minDistance, bestIdx) =
     (let distance = sqrDistance p refColor
      in closest_scan p refs (Suc j)
           (if distance < minDistance then (distance, j) else (minDistance, bestIdx)))"

definition colorIndex :: "ColorRGBA \<Rightarrow> ColorRGBA list \<Rightarrow> bool \<Rightarrow> nat" where
  "colorIndex p refColors hasAlpha =
     (if hasAlpha \<and> cA p < 128 then 3
      else snd (closest_scan p refColors 0 (0x7FFFFFFF, 0)))"

fun packIndices :: "nat list \<Rightarrow> nat \<Rightarrow> u32 \<Rightarrow> u32" where
  "packIndices [] i colorTable = colorTable"
| "packIndices (idx # idxs) i colorTable =
     packIndices idxs (Suc i) (colorTable OR push_bit (i * 2) (of_nat idx))"

text \<open>Entry \<open>i\<close> of \<open>colorIndices\<close>, and the table packed from the sixteen entries.\<close>

definition colorIndexAt :: "ColorRGBA list \<Rightarrow> ColorRGBA list \<Rightarrow> bool \<Rightarrow> nat \<Rightarrow> nat" where
  "colorIndexAt block refColors hasAlpha i = colorIndex (block ! i) refColors hasAlpha"

definition encodeColorTableBC1BC3 :: "ColorRGBA list \<Rightarrow> ColorRGBA list \<Rightarrow> bool \<Rightarrow> u32" where
  "encodeColorTableBC1BC3 block refColors hasAlpha =
     packIndices (map (colorIndexAt block refColors hasAlpha) [0 ..< 16]) 0 0"

subsection \<open>The BC1 codec (bc1.go)\<close>

definition transparentBlack :: ColorRGBA where
  "transparentBlack = \<lparr>cR = 0, cG = 0, cB = 0, cA = 0\<rparr>"

text \<open>
  The block \<open>Generate reference colors\<close>, which the encoder and the decoder share word
  for word: \<open>[maxColor, minColor, color2, color3]\<close>.
\<close>

definition refColorsBC1 :: "bool \<Rightarrow> ColorRGBA \<Rightarrow> ColorRGBA \<Rightarrow> ColorRGBA list" where
  "refColorsBC1 hasAlpha maxColor minColor =
     [maxColor, minColor,
      if hasAlpha then mix11Over2Saturate maxColor minColor
      else mix21Over3Saturate maxColor minColor,
      if hasAlpha then transparentBlack else mix12Over3Saturate maxColor minColor]"

text \<open>The eight bytes of the result, from \<open>max565\<close>, \<open>min565\<close> and the table.\<close>

definition packBC1 :: "u16 \<Rightarrow> u16 \<Rightarrow> u32 \<Rightarrow> byte list" where
  "packBC1 max565 min565 colorTable =
     [ucast max565, ucast (drop_bit 8 max565),
      ucast min565, ucast (drop_bit 8 min565),
      ucast colorTable, ucast (drop_bit 8 colorTable),
      ucast (drop_bit 16 colorTable), ucast (drop_bit 24 colorTable)]"

text \<open>
  The encoder from the point where \<open>canContainAlpha\<close> and the four variables
  \<open>maxColor\<close>, \<open>minColor\<close>, \<open>max565\<close>, \<open>min565\<close> have their final values.
\<close>

definition encodeEndpoints ::
  "ColorRGBA list \<Rightarrow> bool \<Rightarrow> ColorRGBA \<Rightarrow> ColorRGBA \<Rightarrow> u16 \<Rightarrow> u16 \<Rightarrow> byte list" where
  "encodeEndpoints block canContainAlpha maxColor minColor max565 min565 =
     packBC1 max565 min565
       (encodeColorTableBC1BC3 block (refColorsBC1 canContainAlpha maxColor minColor)
          canContainAlpha)"

text \<open>
  The test \<open>max565 <= min565\<close> and the swap: in the first branch the four variables
  have exchanged their values.
\<close>

definition encodeMinMax :: "ColorRGBA list \<Rightarrow> ColorRGBA \<Rightarrow> ColorRGBA \<Rightarrow> byte list" where
  "encodeMinMax block minColor maxColor =
     (if to565 maxColor \<le> to565 minColor
      then encodeEndpoints block True minColor maxColor (to565 minColor) (to565 maxColor)
      else encodeEndpoints block False maxColor minColor (to565 maxColor) (to565 minColor))"

definition encodeBlockBC1 :: "ColorRGBA list \<Rightarrow> byte list" where
  "encodeBlockBC1 block =
     encodeMinMax block (fst (minMaxLuminance block)) (snd (minMaxLuminance block))"

datatype bcn_panic = BlockTooShort

text \<open>Pixel \<open>i\<close> of the decoded block.\<close>

definition decodePixel :: "bool \<Rightarrow> ColorRGBA list \<Rightarrow> u32 \<Rightarrow> nat \<Rightarrow> ColorRGBA" where
  "decodePixel hasAlpha refColors colorTable i =
     (let idx = unat (drop_bit (i * 2) colorTable AND 0x3)
      in if hasAlpha \<and> idx = 3 then (refColors ! idx)\<lparr>cA := 0\<rparr> else refColors ! idx)"

definition decodeEndpoints :: "bool \<Rightarrow> ColorRGBA \<Rightarrow> ColorRGBA \<Rightarrow> u32 \<Rightarrow> ColorRGBA list" where
  "decodeEndpoints hasAlpha maxColor minColor colorTable =
     map (decodePixel hasAlpha (refColorsBC1 hasAlpha maxColor minColor) colorTable) [0 ..< 16]"

text \<open>The test \<open>color0_565 <= color1_565\<close> and the endpoints it chooses.\<close>

definition decodeWords :: "u16 \<Rightarrow> u16 \<Rightarrow> u32 \<Rightarrow> ColorRGBA list" where
  "decodeWords color0_565 color1_565 colorTable =
     (if color0_565 \<le> color1_565
      then decodeEndpoints True (from565 color1_565) (from565 color0_565) colorTable
      else decodeEndpoints False (from565 color0_565) (from565 color1_565) colorTable)"

definition decodeBlockBC1 :: "byte list \<Rightarrow> bcn_panic + ColorRGBA list" where
  "decodeBlockBC1 data =
     (if length data < 8 then Inl BlockTooShort
      else Inr (decodeWords
                  (ucast (data ! 0) OR push_bit 8 (ucast (data ! 1)))
                  (ucast (data ! 2) OR push_bit 8 (ucast (data ! 3)))
                  (ucast (data ! 4) OR push_bit 8 (ucast (data ! 5))
                     OR push_bit 16 (ucast (data ! 6)) OR push_bit 24 (ucast (data ! 7)))))"

section \<open>Properties of the BC1 codec\<close>

subsection \<open>Words and bytes\<close>

lemma u16_bytes:
  "ucast (ucast v :: byte) OR push_bit 8 (ucast (ucast (drop_bit 8 v) :: byte)) = (v :: u16)"
  by (rule bit_word_eqI) (auto simp: bit_simps)

lemma mask_F8: "(0xF8 :: 'a::len word) = push_bit 3 (mask 5)"
  by (simp add: mask_eq_exp_minus_1)

lemma mask_FC: "(0xFC :: 'a::len word) = push_bit 2 (mask 6)"
  by (simp add: mask_eq_exp_minus_1)

text \<open>Every 16-bit value is the 565 word of the colour it decodes to.\<close>

lemma to565_from565: "to565 (from565 v) = v"
  unfolding to565_def from565_def mask_F8 mask_FC
  apply simp
  apply (rule bit_word_eqI)
  subgoal for n
    by (cases "8 \<le> n") (auto simp: bit_simps)
  done

lemma cA_from565: "cA (from565 v) = 255"
  by (simp add: from565_def)

definition storedColor0 :: "byte list \<Rightarrow> u16" where
  "storedColor0 data = ucast (data ! 0) OR push_bit 8 (ucast (data ! 1))"

definition storedColor1 :: "byte list \<Rightarrow> u16" where
  "storedColor1 data = ucast (data ! 2) OR push_bit 8 (ucast (data ! 3))"

subsection \<open>The order of the stored endpoints\<close>

text \<open>
  What the encoder stores: after its swap \<open>max565\<close> holds the 565 word of the
  luminance-minimum colour, and that is what goes into bytes 0 and 1.
\<close>

lemma encodeBlockBC1_stored:
  assumes "minMaxLuminance block = (minColor, maxColor)"
    and "to565 maxColor \<le> to565 minColor"
  shows "storedColor0 (encodeBlockBC1 block) = to565 minColor \<and>
         storedColor1 (encodeBlockBC1 block) = to565 maxColor"
  using assms
  by (simp add: encodeBlockBC1_def encodeMinMax_def encodeEndpoints_def packBC1_def
        storedColor0_def storedColor1_def u16_bytes)

definition rgb :: "nat \<Rightarrow> nat \<Rightarrow> nat \<Rightarrow> ColorRGBA" where
  "rgb r g b = \<lparr>cR = of_nat r, cG = of_nat g, cB = of_nat b, cA = 255\<rparr>"

text \<open>One green pixel, brighter than the fifteen red ones but of smaller 565 word.\<close>

definition green_red_block :: "ColorRGBA list" where
  "green_red_block = rgb 0 255 0 # replicate 15 (rgb 255 0 0)"

text \<open>
  Claim C2 asks, when \<open>to565\<close> of the luminance-maximum colour is at most \<open>to565\<close> of
  the luminance-minimum colour, for alpha mode with \<open>color_0\<close> the smaller 565 word and
  \<open>color_1\<close> the larger. On this block the encoder chooses the alpha-mode references
  and stores the larger word \<open>0xF800\<close> as \<open>color_0\<close> and the smaller \<open>0x07E0\<close> as
  \<open>color_1\<close>; the decoder, which takes \<open>color_0 \<le> color_1\<close> for alpha mode, then
  decodes the block in opaque mode.
\<close>

theorem encodeBlockBC1_alpha_endpoints_swapped:
  "minMaxLuminance green_red_block = (rgb 255 0 0, rgb 0 255 0) \<and>
   to565 (rgb 0 255 0) = 0x07E0 \<and> to565 (rgb 255 0 0) = 0xF800 \<and>
   encodeBlockBC1 green_red_block = [0x00, 0xF8, 0xE0, 0x07, 1, 0, 0, 0] \<and>
   storedColor0 (encodeBlockBC1 green_red_block) = 0xF800 \<and>
   storedColor1 (encodeBlockBC1 green_red_block) = 0x07E0 \<and>
   decodeBlockBC1 (encodeBlockBC1 green_red_block)
     = Inr (rgb 0 252 0 # replicate 15 (rgb 248 0 0))"
proof -
  have mm: "minMaxLuminance green_red_block = (rgb 255 0 0, rgb 0 255 0)" by code_simp
  have hi: "to565 (rgb 0 255 0) = 0x07E0" and lo: "to565 (rgb 255 0 0) = 0xF800"
    by code_simp+
  have enc: "encodeBlockBC1 green_red_block = [0x00, 0xF8, 0xE0, 0x07, 1, 0, 0, 0]"
    by code_simp
  have s0: "storedColor0 [0x00, 0xF8, 0xE0, 0x07, 1, 0, 0, 0] = 0xF800"
    and s1: "storedColor1 [0x00, 0xF8, 0xE0, 0x07, 1, 0, 0, 0] = 0x07E0"
    by code_simp+
  have dec: "decodeBlockBC1 [0x00, 0xF8, 0xE0, 0x07, 1, 0, 0, 0]
               = Inr (rgb 0 252 0 # replicate 15 (rgb 248 0 0))"
    by code_simp
  show ?thesis by (simp only: mm hi lo enc s0 s1 dec simp_thms)
qed

subsection \<open>Decoding an encoded block twice\<close>

lemma luminance_range: "0 \<le> luminance c \<and> luminance c < 0x7FFFFFFF"
proof -
  have "uint (cR c) < 256" "uint (cG c) < 256" "uint (cB c) < 256"
    using uint_bounded [of "cR c"] uint_bounded [of "cG c"] uint_bounded [of "cB c"] by simp_all
  then show ?thesis by (simp add: luminance_def)
qed

lemma sqrDistance_nonneg: "0 \<le> sqrDistance p q"
  by (simp add: sqrDistance_def Let_def)

lemma sqrDistance_self: "sqrDistance p p = 0"
  by (simp add: sqrDistance_def)

lemma minMax_scan_same:
  "minMax_scan (replicate n c) (luminance c, luminance c, c, c) = (luminance c, luminance c, c, c)"
  by (induction n) (simp_all add: Let_def)

lemma minMaxLuminance_uniform: "minMaxLuminance (replicate (Suc n) c) = (c, c)"
  using luminance_range [of c] by (simp add: minMaxLuminance_def minMax_scan_same Let_def)

lemma colorIndex_first:
  "cA c = 255 \<Longrightarrow> colorIndex c [c, c, x, y] hasAlpha = 0"
  using sqrDistance_nonneg [of c x] sqrDistance_nonneg [of c y]
  by (simp add: colorIndex_def sqrDistance_self)

lemma packIndices_zero: "packIndices (replicate n 0) i 0 = 0"
  by (induction n arbitrary: i) simp_all

lemma colorIndexAt_uniform:
  "cA c = 255 \<Longrightarrow>
   map (colorIndexAt (replicate n c) [c, c, x, y] hasAlpha) [0 ..< n] = replicate n 0"
proof -
  assume a: "cA c = 255"
  have "map (colorIndexAt (replicate n c) [c, c, x, y] hasAlpha) [0 ..< n]
          = map (\<lambda>i. 0) [0 ..< n]"
    by (rule map_cong) (simp_all add: colorIndexAt_def colorIndex_first [OF a])
  then show ?thesis by (simp add: map_replicate_const)
qed

lemma mix11Over2_same: "mix11Over2 x x = x"
  by (simp add: mix11Over2_def)

lemma encodeBlockBC1_uniform:
  assumes "cA c = 255"
  shows "encodeBlockBC1 (replicate 16 c) = packBC1 (to565 c) (to565 c) 0"
proof -
  have mm: "minMaxLuminance (replicate 16 c) = (c, c)"
    using minMaxLuminance_uniform [of 15 c] by simp
  have tbl: "encodeColorTableBC1BC3 (replicate 16 c) (refColorsBC1 True c c) True = 0"
    unfolding encodeColorTableBC1BC3_def refColorsBC1_def
    using colorIndexAt_uniform [OF assms, of 16] by (simp add: packIndices_zero)
  show ?thesis
    by (simp add: encodeBlockBC1_def encodeMinMax_def encodeEndpoints_def mm tbl)
qed

lemma decodeBlockBC1_uniform:
  "decodeBlockBC1 (packBC1 v v 0) = Inr (replicate 16 (from565 v))"
proof -
  have "map (decodePixel True (refColorsBC1 True (from565 v) (from565 v)) 0) [0 ..< 16]
          = map (\<lambda>i. from565 v) [0 ..< 16]"
    by (rule map_cong) (simp_all add: decodePixel_def refColorsBC1_def)
  then have "decodeWords v v 0 = replicate 16 (from565 v)"
    by (simp add: decodeWords_def decodeEndpoints_def map_replicate_const del: upt_Suc)
  then show ?thesis
    by (simp add: decodeBlockBC1_def packBC1_def u16_bytes)
qed

text \<open>
  Claim C4, amended. For a block whose sixteen pixels are one colour of alpha 255,
  decoding the encoded block gives a block \<open>d\<close>, and decoding the encoding of \<open>d\<close> gives
  \<open>d\<close> again.
\<close>

theorem BC1_uniform_block_roundtrip:
  assumes "cA c = 255"
  shows "\<exists>d. decodeBlockBC1 (encodeBlockBC1 (replicate 16 c)) = Inr d \<and>
             decodeBlockBC1 (encodeBlockBC1 d) = Inr d"
proof -
  let ?q = "from565 (to565 c)"
  have 1: "decodeBlockBC1 (encodeBlockBC1 (replicate 16 c)) = Inr (replicate 16 ?q)"
    by (simp only: encodeBlockBC1_uniform [OF assms] decodeBlockBC1_uniform)
  have "decodeBlockBC1 (encodeBlockBC1 (replicate 16 ?q)) = Inr (replicate 16 (from565 (to565 ?q)))"
    by (simp only: encodeBlockBC1_uniform [OF cA_from565] decodeBlockBC1_uniform)
  then have 2: "decodeBlockBC1 (encodeBlockBC1 (replicate 16 ?q)) = Inr (replicate 16 ?q)"
    by (simp only: to565_from565)
  from 1 2 show ?thesis by blast
qed

theorem BC1_uniform_block_roundtrip_witness:
  "cA (rgb 10 20 30) = 255 \<and>
   decodeBlockBC1 (encodeBlockBC1 (replicate 16 (rgb 10 20 30))) = Inr (replicate 16 (rgb 8 20 24)) \<and>
   decodeBlockBC1 (encodeBlockBC1 (replicate 16 (rgb 8 20 24))) = Inr (replicate 16 (rgb 8 20 24))"
proof -
  have a: "cA (rgb 10 20 30) = 255" by (simp add: rgb_def)
  have d: "decodeBlockBC1 (encodeBlockBC1 (replicate 16 (rgb 10 20 30)))
             = Inr (replicate 16 (rgb 8 20 24))" by code_simp
  from BC1_uniform_block_roundtrip [OF a] d a show ?thesis by auto
qed

text \<open>
  The claim as first stated covers every block of alpha 255. On the block below, encoded
  and decoded in opaque mode both times, the second decoding differs from the first: after
  the first trip the darkest pixel is an interpolated colour, which the second encoding
  takes for an endpoint.
\<close>

definition three_color_block :: "ColorRGBA list" where
  "three_color_block =
     (let a = rgb 148 141 222; b = rgb 247 203 0; c = rgb 65 168 233
      in [a, b, c, c, c, a, c, a, a, a, b, a, c, c, c, b])"

definition three_color_once :: "ColorRGBA list" where
  "three_color_once =
     (let a = rgb 122 178 154; b = rgb 240 200 0; c = rgb 64 168 232
      in [a, b, c, c, c, a, c, a, a, a, b, a, c, c, c, b])"

definition three_color_twice :: "ColorRGBA list" where
  "three_color_twice =
     (let a = rgb 120 176 152; b = rgb 240 200 0
      in [a, b, a, a, a, a, a, a, a, a, b, a, a, a, a, b])"

theorem BC1_roundtrip_counterexample:
  "length three_color_block = 16 \<and>
   list_all (\<lambda>p. cA p = 255) three_color_block \<and>
   storedColor1 (encodeBlockBC1 three_color_block) < storedColor0 (encodeBlockBC1 three_color_block) \<and>
   decodeBlockBC1 (encodeBlockBC1 three_color_block) = Inr three_color_once \<and>
   storedColor1 (encodeBlockBC1 three_color_once) < storedColor0 (encodeBlockBC1 three_color_once) \<and>
   decodeBlockBC1 (encodeBlockBC1 three_color_once) = Inr three_color_twice \<and>
   three_color_once \<noteq> three_color_twice"
proof -
  let ?e1 = "[64, 246, 93, 69, 83, 221, 207, 21] :: byte list"
  let ?e2 = "[64, 246, 147, 125, 81, 85, 69, 21] :: byte list"
  have l: "length three_color_block = 16"
    and a: "list_all (\<lambda>p. cA p = 255) three_color_block" by code_simp+
  have e1: "encodeBlockBC1 three_color_block = ?e1" by code_simp
  have d1: "decodeBlockBC1 ?e1 = Inr three_color_once" by code_simp
  have e2: "encodeBlockBC1 three_color_once = ?e2" by code_simp
  have d2: "decodeBlockBC1 ?e2 = Inr three_color_twice" by code_simp
  have s1: "storedColor1 ?e1 < storedColor0 ?e1" and s2: "storedColor1 ?e2 < storedColor0 ?e2"
    by code_simp+
  have ne: "three_color_once \<noteq> three_color_twice" by code_simp
  show ?thesis by (simp only: l a e1 d1 e2 d2 s1 s2 ne simp_thms)
qed

section \<open>EDDS block bodies (internal/edds)\<close>

subsection \<open>Blocks and errors\<close>

definition BlockMagicCOPY :: string where "BlockMagicCOPY = ''COPY''"
definition BlockMagicLZ4 :: string where "BlockMagicLZ4 = ''LZ4 ''"

definition ChunkSize :: int where "ChunkSize = 64 * 1024"
definition dictCap :: nat where "dictCap = 64 * 1024"

text \<open>\<open>Size\<close> and \<open>UncompressedSize\<close> are \<open>int32\<close>: read through \<open>sint\<close>.\<close>

record Block =
  bMagic :: string
  bData :: "byte list"
  bSize :: u32
  bUncompressedSize :: u32

datatype edds_error =
  CopySizeMismatch int nat
  | UnknownBlockMagic string
  | InvalidTargetSize int
  | StreamTruncated nat
  | UnknownLZ4Flags byte
  | InvalidChunkSize int nat
  | OverrunsTarget
  | ChunkDecodeFailed
  | DecodedSizeMismatch int nat
  | BytesLeft nat

text \<open>
  \<open>lz4.UncompressBlockWithDict(src, dst, dict)\<close> belongs to a library. It is the
  parameter \<open>lz4\<close>: from the compressed bytes, the length of \<open>dst\<close> and the dictionary
  to the bytes it decodes into \<open>dst\<close>, or \<open>None\<close> for its error. The library writes
  into \<open>dst\<close> only, so it returns at most \<open>len(dst)\<close> bytes:
\<close>

type_synonym lz4_decoder = "byte list \<Rightarrow> nat \<Rightarrow> byte list \<Rightarrow> byte list option"

definition lz4_in_bounds :: "lz4_decoder \<Rightarrow> bool" where
  "lz4_in_bounds lz4 \<longleftrightarrow> (\<forall>src n dict out. lz4 src n dict = Some out \<longrightarrow> length out \<le> n)"

subsection \<open>The chunk stream\<close>

text \<open>The 24-bit size and the flag byte of the chunk header at the head of the reader.\<close>

definition chunkSize :: "byte list \<Rightarrow> int" where
  "chunkSize hdr = uint (hdr ! 0) OR push_bit 8 (uint (hdr ! 1)) OR push_bit 16 (uint (hdr ! 2))"

definition chunkFlags :: "byte list \<Rightarrow> byte" where
  "chunkFlags hdr = hdr ! 3"

text \<open>
  The rolling dictionary is the list \<open>dict[:dictSize]\<close>; \<open>decoded\<close> is what the last
  chunk produced.
\<close>

definition updateDict :: "byte list \<Rightarrow> byte list \<Rightarrow> byte list" where
  "updateDict dict decoded =
     (if length decoded \<ge> dictCap then drop (length decoded - dictCap) decoded
      else if length decoded \<le> dictCap - length dict then dict @ decoded
      else drop (length decoded - (dictCap - length dict)) dict @ decoded)"

text \<open>
  The decoding loop. The reader is the list \<open>r\<close> of the bytes left; \<open>acc\<close> is
  \<open>target[:outIdx]\<close>, the bytes decoded so far. A chunk takes at least five bytes from
  the reader. On leaving by \<open>break\<close> the loop hands back the decoded bytes and the reader.
\<close>

function chunk_loop ::
  "lz4_decoder \<Rightarrow> int \<Rightarrow> byte list \<Rightarrow> byte list \<Rightarrow> byte list \<Rightarrow> edds_error + byte list \<times> byte list" where
  "chunk_loop lz4 targetSize r acc dict =
     (if length r < 4 then Inl (StreamTruncated (length r))
      else if chunkFlags r AND NOT 0x80 \<noteq> 0 then Inl (UnknownLZ4Flags (chunkFlags r))
      else if chunkSize r \<le> 0 \<or> chunkSize r > int (length r - 4)
        then Inl (InvalidChunkSize (chunkSize r) (length r - 4))
      else if targetSize - int (length acc) \<le> 0 then Inl OverrunsTarget
      else
        (case lz4 (take (nat (chunkSize r)) (drop 4 r))
                (nat (min ChunkSize (targetSize - int (length acc)))) dict of
           None \<Rightarrow> Inl ChunkDecodeFailed
         | Some decoded \<Rightarrow>
             if chunkFlags r AND 0x80 \<noteq> 0
             then Inr (acc @ decoded, drop (nat (chunkSize r)) (drop 4 r))
             else chunk_loop lz4 targetSize (drop (nat (chunkSize r)) (drop 4 r))
                    (acc @ decoded) (updateDict dict decoded)))"
  by pat_completeness auto
termination
  by (relation "measure (\<lambda>(lz4, targetSize, r, acc, dict). length r)") auto

declare chunk_loop.simps [simp del]

subsection \<open>decompressBlock\<close>

text \<open>
  The target size and the chunk stream, after the look at a size stored at the head of
  the payload.
\<close>

definition startTarget :: "Block \<Rightarrow> int \<Rightarrow> int" where
  "startTarget block expectedUncompressedSize =
     (if sint (bUncompressedSize block) > 0 then sint (bUncompressedSize block)
      else expectedUncompressedSize)"

definition embeddedSize :: "byte list \<Rightarrow> int \<Rightarrow> int \<Rightarrow> bool" where
  "embeddedSize data expectedUncompressedSize targetSize \<longleftrightarrow>
     length data \<ge> 8 \<and>
     (uint (Uint32 (take 4 data)) = expectedUncompressedSize \<or> uint (Uint32 (take 4 data)) = targetSize) \<and>
     chunkSize (drop 4 data) > 0 \<and> chunkSize (drop 4 data) < 2 ^ 20"

definition resolveTarget :: "byte list \<Rightarrow> int \<Rightarrow> int \<Rightarrow> int \<times> byte list" where
  "resolveTarget data expectedUncompressedSize targetSize =
     (if embeddedSize data expectedUncompressedSize targetSize
      then (uint (Uint32 (take 4 data)), drop 4 data)
      else (targetSize, data))"

text \<open>The checks after the loop.\<close>

definition finishDecode :: "int \<Rightarrow> edds_error + byte list \<times> byte list \<Rightarrow> edds_error + byte list" where
  "finishDecode targetSize res =
     (case res of
        Inl err \<Rightarrow> Inl err
      | Inr (target, r) \<Rightarrow>
          if int (length target) \<noteq> targetSize then Inl (DecodedSizeMismatch targetSize (length target))
          else if length r \<noteq> 0 then Inl (BytesLeft (length r))
          else Inr target)"

definition decodeStream :: "lz4_decoder \<Rightarrow> int \<times> byte list \<Rightarrow> edds_error + byte list" where
  "decodeStream lz4 ts = finishDecode (fst ts) (chunk_loop lz4 (fst ts) (snd ts) [] [])"

definition decompressBlock :: "lz4_decoder \<Rightarrow> Block \<Rightarrow> int \<Rightarrow> edds_error + byte list" where
  "decompressBlock lz4 block expectedUncompressedSize =
     (if bMagic block = BlockMagicCOPY then
        (if int (length (bData block)) \<noteq> expectedUncompressedSize
         then Inl (CopySizeMismatch expectedUncompressedSize (length (bData block)))
         else Inr (bData block))
      else if bMagic block \<noteq> BlockMagicLZ4 then Inl (UnknownBlockMagic (bMagic block))
      else if startTarget block expectedUncompressedSize \<le> 0
        then Inl (InvalidTargetSize (startTarget block expectedUncompressedSize))
      else decodeStream lz4
             (resolveTarget (bData block) expectedUncompressedSize
                (startTarget block expectedUncompressedSize)))"

subsection \<open>What a successful decode has checked\<close>

text \<open>
  A chunk, for the statement of the property: its four header bytes and its payload. It
  is well formed when the 24-bit size of the header is the length of the payload, which
  is not empty.
\<close>

type_synonym chunk = "byte list \<times> byte list"

definition chunkOK :: "chunk \<Rightarrow> bool" where
  "chunkOK c \<longleftrightarrow> length (fst c) = 4 \<and> snd c \<noteq> [] \<and> chunkSize (fst c) = int (length (snd c))"

definition chunkBytes :: "chunk \<Rightarrow> byte list" where
  "chunkBytes c = fst c @ snd c"

text \<open>
  The outputs of the chunks: each is decoded into what is left of the target, at most
  \<open>ChunkSize\<close> bytes, against the dictionary rolled over the outputs before it.
\<close>

fun chunkOutputs ::
  "lz4_decoder \<Rightarrow> int \<Rightarrow> nat \<Rightarrow> byte list \<Rightarrow> chunk list \<Rightarrow> byte list list option" where
  "chunkOutputs lz4 targetSize n dict [] = Some []"
| "chunkOutputs lz4 targetSize n dict (c # cs) =
     (case lz4 (snd c) (nat (min ChunkSize (targetSize - int n))) dict of
        None \<Rightarrow> None
      | Some decoded \<Rightarrow>
          map_option ((#) decoded)
            (chunkOutputs lz4 targetSize (n + length decoded) (updateDict dict decoded) cs))"

text \<open>
  No chunk writes past the target: before each chunk some room is left, and with its
  output the total stays within the target.
\<close>

fun fitsTarget :: "int \<Rightarrow> nat \<Rightarrow> byte list list \<Rightarrow> bool" where
  "fitsTarget targetSize n [] = True"
| "fitsTarget targetSize n (decoded # rest) =
     (int n < targetSize \<and> int (n + length decoded) \<le> targetSize \<and>
      fitsTarget targetSize (n + length decoded) rest)"

lemma flag_byte_cases:
  fixes f :: byte
  assumes "f AND NOT 0x80 = 0"
  shows "(f AND 0x80 \<noteq> 0 \<longrightarrow> f = 0x80) \<and> (f AND 0x80 = 0 \<longrightarrow> f = 0)"
proof -
  have f: "f = (f AND 0x80) OR (f AND NOT 0x80)"
    by (simp flip: bit.conj_disj_distrib)
  have m: "(0x80 :: byte) = 2 ^ 7" by simp
  have "f AND 2 ^ 7 = (if bit f 7 then 2 ^ 7 else 0)"
  proof (rule bit_word_eqI)
    fix n assume "n < LENGTH(8)"
    then show "bit (f AND 2 ^ 7) n \<longleftrightarrow> bit (if bit f 7 then 2 ^ 7 else 0 :: byte) n"
      by (cases "bit f 7") (auto simp only: bit_and_iff bit_exp_iff if_True if_False bit_0_eq)
  qed
  then have "f AND 0x80 = (if bit f 7 then 0x80 else 0)"
    by (simp only: m)
  then have "f AND 0x80 = 0 \<or> f AND 0x80 = 0x80" by auto
  then show ?thesis using f assms by auto
qed

lemma chunk_loop_success:
  "chunk_loop lz4 targetSize r acc dict = Inr (out, rest) \<Longrightarrow> lz4_in_bounds lz4 \<Longrightarrow>
   \<exists>chunks outs.
     r = concat (map chunkBytes chunks) @ rest \<and> chunks \<noteq> [] \<and> list_all chunkOK chunks \<and>
     list_all (\<lambda>c. chunkFlags (fst c) = 0x00) (butlast chunks) \<and>
     chunkFlags (fst (last chunks)) = 0x80 \<and>
     chunkOutputs lz4 targetSize (length acc) dict chunks = Some outs \<and>
     out = acc @ concat outs \<and> fitsTarget targetSize (length acc) outs"
proof (induction lz4 targetSize r acc dict rule: chunk_loop.induct)
  case (1 lz4 targetSize r acc dict)
  note unf = chunk_loop.simps [of lz4 targetSize r acc dict]
  let ?n = "nat (chunkSize r)"
  let ?want = "nat (min ChunkSize (targetSize - int (length acc)))"
  let ?payload = "take ?n (drop 4 r)"
  let ?r2 = "drop ?n (drop 4 r)"
  let ?c = "(take 4 r, ?payload)"
  from "1.prems"(1) have len: "\<not> length r < 4"
    and fl: "\<not> chunkFlags r AND NOT 0x80 \<noteq> 0"
    and sz: "\<not> (chunkSize r \<le> 0 \<or> chunkSize r > int (length r - 4))"
    and room: "\<not> targetSize - int (length acc) \<le> 0"
    by (auto simp: unf split: if_splits)
  from "1.prems"(1) len fl sz room obtain decoded where
    dec: "lz4 ?payload ?want dict = Some decoded"
    by (auto simp: unf split: option.splits)
  have bound: "length decoded \<le> ?want"
    using "1.prems"(2) dec unfolding lz4_in_bounds_def by blast
  have hdr: "chunkSize (take 4 r) = chunkSize r" "chunkFlags (take 4 r) = chunkFlags r"
    using len by (simp_all add: chunkSize_def chunkFlags_def)
  have "?n \<le> length r - 4" using sz by linarith
  then have plen: "length ?payload = ?n" by simp
  have cok: "chunkOK ?c"
    using len sz plen by (auto simp: chunkOK_def hdr)
  have split: "r = chunkBytes ?c @ ?r2"
    by (simp only: chunkBytes_def fst_conv snd_conv append_assoc append_take_drop_id)
  have fit1: "int (length acc) < targetSize \<and> int (length acc + length decoded) \<le> targetSize"
    using room bound by (auto simp: min_def split: if_splits)
  note fc = flag_byte_cases [of "chunkFlags r"]
  show ?case
  proof (cases "chunkFlags r AND 0x80 \<noteq> 0")
    case True
    then have res: "out = acc @ decoded" "rest = ?r2"
      using "1.prems"(1) len fl sz room dec by (auto simp: unf)
    have f80: "chunkFlags r = 0x80" using fc fl True by simp
    have "r = concat (map chunkBytes [?c]) @ rest"
      using split res by simp
    moreover have "chunkOutputs lz4 targetSize (length acc) dict [?c] = Some [decoded]"
      using dec by simp
    ultimately show ?thesis
      using cok f80 res fit1 hdr
      by (intro exI [of _ "[?c]"] exI [of _ "[decoded]"]) simp
  next
    case False
    then have rec: "chunk_loop lz4 targetSize ?r2 (acc @ decoded) (updateDict dict decoded) = Inr (out, rest)"
      using "1.prems"(1) len fl sz room dec by (auto simp: unf)
    have f0: "chunkFlags r = 0" using fc fl False by simp
    from "1.IH" [OF len _ _ room dec False rec "1.prems"(2)] fl sz
    obtain chunks outs where
      r2: "?r2 = concat (map chunkBytes chunks) @ rest" and ne: "chunks \<noteq> []"
      and ok: "list_all chunkOK chunks"
      and fl0: "list_all (\<lambda>c. chunkFlags (fst c) = 0x00) (butlast chunks)"
      and fl1: "chunkFlags (fst (last chunks)) = 0x80"
      and outs: "chunkOutputs lz4 targetSize (length (acc @ decoded)) (updateDict dict decoded) chunks = Some outs"
      and out: "out = (acc @ decoded) @ concat outs"
      and fits: "fitsTarget targetSize (length (acc @ decoded)) outs"
      by auto
    have "r = concat (map chunkBytes (?c # chunks)) @ rest"
      using split r2 by (metis append_assoc concat.simps(2) list.simps(9))
    moreover have "chunkOutputs lz4 targetSize (length acc) dict (?c # chunks) = Some (decoded # outs)"
      using dec outs by simp
    ultimately show ?thesis
      using cok ok ne fl0 fl1 f0 hdr out fits fit1
      by (intro exI [of _ "?c # chunks"] exI [of _ "decoded # outs"]) simp
  qed
qed

text \<open>A chunk whose flag byte has a bit other than \<open>0x80\<close> stops the decoding.\<close>

lemma chunk_loop_unknown_flags:
  "4 \<le> length r \<Longrightarrow> chunkFlags r AND NOT 0x80 \<noteq> 0 \<Longrightarrow>
   chunk_loop lz4 targetSize r acc dict = Inl (UnknownLZ4Flags (chunkFlags r))"
  by (simp add: chunk_loop.simps [of lz4 targetSize r acc dict])

text \<open>
  Claim C5. When \<open>decompressBlock\<close> succeeds on a block of magic \<open>LZ4\<close>, with
  \<open>targetSize\<close> and the chunk stream as resolved from the payload: the stream is a
  sequence of well-formed chunks and nothing else, so no byte follows the terminal chunk;
  the last chunk has the flag byte \<open>0x80\<close> and every chunk before it the flag byte
  \<open>0x00\<close>, so no other flag bit occurs; the result is the outputs of the chunks in
  order and its length is \<open>targetSize\<close>; and no chunk writes past the target.
\<close>

theorem decompressBlock_LZ4_success:
  assumes magic: "bMagic block = BlockMagicLZ4"
    and lz4: "lz4_in_bounds lz4"
    and ok: "decompressBlock lz4 block expectedUncompressedSize = Inr out"
  shows "\<exists>chunks outs.
           snd (resolveTarget (bData block) expectedUncompressedSize
                  (startTarget block expectedUncompressedSize))
             = concat (map chunkBytes chunks) \<and>
           chunks \<noteq> [] \<and> list_all chunkOK chunks \<and>
           list_all (\<lambda>c. chunkFlags (fst c) = 0x00) (butlast chunks) \<and>
           chunkFlags (fst (last chunks)) = 0x80 \<and>
           chunkOutputs lz4
             (fst (resolveTarget (bData block) expectedUncompressedSize
                     (startTarget block expectedUncompressedSize))) 0 [] chunks = Some outs \<and>
           out = concat outs \<and>
           int (length out)
             = fst (resolveTarget (bData block) expectedUncompressedSize
                      (startTarget block expectedUncompressedSize)) \<and>
           fitsTarget
             (fst (resolveTarget (bData block) expectedUncompressedSize
                     (startTarget block expectedUncompressedSize))) 0 outs"
proof -
  let ?ts = "resolveTarget (bData block) expectedUncompressedSize
               (startTarget block expectedUncompressedSize)"
  have ne: "BlockMagicLZ4 \<noteq> BlockMagicCOPY"
    by (simp add: BlockMagicLZ4_def BlockMagicCOPY_def)
  from ok magic ne have fin: "finishDecode (fst ?ts) (chunk_loop lz4 (fst ?ts) (snd ?ts) [] []) = Inr out"
    by (auto simp: decompressBlock_def decodeStream_def split: if_splits)
  then obtain rest where
    loop: "chunk_loop lz4 (fst ?ts) (snd ?ts) [] [] = Inr (out, rest)"
    and len: "int (length out) = fst ?ts" and rest: "rest = []"
    by (auto simp: finishDecode_def split: sum.splits prod.splits if_splits)
  from chunk_loop_success [OF loop lz4] rest len show ?thesis by auto
qed

text \<open>A decoder for the witness: the payload is stored as it is.\<close>

definition storedDecoder :: lz4_decoder where
  "storedDecoder src n dict = (if length src \<le> n then Some src else None)"

definition two_chunk_block :: Block where
  "two_chunk_block =
     \<lparr>bMagic = ''LZ4 '', bData = [2, 0, 0, 0x00, 1, 2, 1, 0, 0, 0x80, 3], bSize = 11,
      bUncompressedSize = 0\<rparr>"

theorem decompressBlock_LZ4_success_witness:
  "bMagic two_chunk_block = BlockMagicLZ4 \<and> lz4_in_bounds storedDecoder \<and>
   decompressBlock storedDecoder two_chunk_block 3 = Inr [1, 2, 3] \<and>
   (\<exists>chunks outs.
      bData two_chunk_block = concat (map chunkBytes chunks) \<and> list_all chunkOK chunks \<and>
      chunkFlags (fst (last chunks)) = 0x80 \<and> [1, 2, 3] = concat outs \<and>
      fitsTarget 3 0 outs)"
proof -
  let ?data = "[2, 0, 0, 0x00, 1, 2, 1, 0, 0, 0x80, 3] :: byte list"
  have m: "bMagic two_chunk_block = BlockMagicLZ4"
    by (simp add: two_chunk_block_def BlockMagicLZ4_def)
  have b: "lz4_in_bounds storedDecoder"
    by (auto simp: lz4_in_bounds_def storedDecoder_def split: if_splits)
  have st: "startTarget two_chunk_block 3 = 3"
    by (simp add: startTarget_def two_chunk_block_def)
  have dt: "bData two_chunk_block = ?data"
    by (simp add: two_chunk_block_def)
  have r: "resolveTarget ?data 3 3 = (3, ?data)"
    by (simp add: resolveTarget_def embeddedSize_def Uint32_def)
  have c2: "chunk_loop storedDecoder 3 [1, 0, 0, 0x80, 3] [1, 2] [1, 2] = Inr ([1, 2, 3], [])"
    by (simp add: chunk_loop.simps [of storedDecoder 3 "[1, 0, 0, 0x80, 3]" "[1, 2]" "[1, 2]"]
          chunkSize_def chunkFlags_def ChunkSize_def storedDecoder_def)
  have c1: "chunk_loop storedDecoder 3 ?data [] [] = Inr ([1, 2, 3], [])"
    by (simp add: chunk_loop.simps [of storedDecoder 3 ?data "[]" "[]"]
          chunkSize_def chunkFlags_def ChunkSize_def storedDecoder_def
          updateDict_def dictCap_def c2)
  have d: "decompressBlock storedDecoder two_chunk_block 3 = Inr [1, 2, 3]"
    unfolding decompressBlock_def st dt r decodeStream_def
    by (simp add: c1 finishDecode_def two_chunk_block_def BlockMagicLZ4_def BlockMagicCOPY_def)
  from decompressBlock_LZ4_success [OF m b d] show ?thesis
    unfolding st dt r using m b d dt by auto
qed

end
